theory Spec2Isabelle
  imports Main
begin

section \<open>Text and the Unicode data the pipeline reads\<close>

text \<open>
  A Python \<open>str\<close> is a sequence of Unicode code points; it is modelled as a list of
  natural numbers, one per code point (so \<open>length\<close> is Python's \<open>len\<close>).
\<close>

type_synonym str = "nat list"

definition cp :: "string \<Rightarrow> str" where
  "cp s = map of_char s"

text \<open>
  The pipeline calls into Python's Unicode database in three places:
  \<open>unicodedata.normalize('NFC', .)\<close>, the class \<open>\d\<close> (decimal digits, category Nd)
  and the class \<open>\w\<close> behind \<open>\b\<close> (alphanumerics and the underscore). The database is not
  part of the repository and differs between Python versions, so it is a parameter:
  \<open>nfc\<close> is the normalisation function, \<open>nd\<close> and \<open>alnum\<close> are the two classes on the
  code points from 128 on. On ASCII both classes are written out below.
\<close>

record unicode_db =
  nfc :: "str \<Rightarrow> str"
  nd :: "nat \<Rightarrow> bool"
  alnum :: "nat \<Rightarrow> bool"

definition is_digit :: "unicode_db \<Rightarrow> nat \<Rightarrow> bool" where
  "is_digit u c = ((48 \<le> c \<and> c \<le> 57) \<or> (128 \<le> c \<and> nd u c))"

definition is_word :: "unicode_db \<Rightarrow> nat \<Rightarrow> bool" where
  "is_word u c = ((48 \<le> c \<and> c \<le> 57) \<or> (65 \<le> c \<and> c \<le> 90) \<or> (97 \<le> c \<and> c \<le> 122)
     \<or> c = 95 \<or> (128 \<le> c \<and> alnum u c))"

text \<open>
  \<open>\s\<close> in a \<open>str\<close> pattern and \<open>str.strip()\<close> use the same set, the code points for which
  \<open>str.isspace()\<close> holds: U+0009..U+000D, U+001C..U+001F, U+0020, U+0085, U+00A0, U+1680,
  U+2000..U+200A, U+2028, U+2029, U+202F, U+205F, U+3000.
\<close>

definition isspace :: "nat \<Rightarrow> bool" where
  "isspace c = ((9 \<le> c \<and> c \<le> 13) \<or> (28 \<le> c \<and> c \<le> 32) \<or> c = 133 \<or> c = 160 \<or> c = 5760
     \<or> (8192 \<le> c \<and> c \<le> 8202) \<or> c = 8232 \<or> c = 8233 \<or> c = 8239 \<or> c = 8287 \<or> c = 12288)"

definition is_blank :: "nat \<Rightarrow> bool" where
  \<comment> \<open>the class \<open>[ \t]\<close>\<close>
  "is_blank c = (c = 32 \<or> c = 9)"

definition is_newline :: "nat \<Rightarrow> bool" where
  "is_newline c = (c = 10)"

definition is_punct :: "nat \<Rightarrow> bool" where
  \<comment> \<open>the class \<open>[.!?:;]\<close>\<close>
  "is_punct c = (c = 46 \<or> c = 33 \<or> c = 63 \<or> c = 58 \<or> c = 59)"

definition is_upper :: "nat \<Rightarrow> bool" where
  \<comment> \<open>the class \<open>[A-Z]\<close>\<close>
  "is_upper c = (65 \<le> c \<and> c \<le> 90)"

definition is_lower :: "nat \<Rightarrow> bool" where
  \<comment> \<open>the class \<open>[a-z]\<close>\<close>
  "is_lower c = (97 \<le> c \<and> c \<le> 122)"

record config =
  preserve_paragraphs :: bool
  min_line_length :: int
  verbose :: bool

section \<open>String primitives\<close>

definition py_strip :: "str \<Rightarrow> str" where
  \<comment> \<open>\<open>str.strip()\<close>: whitespace removed at both ends\<close>
  "py_strip t = rev (dropWhile isspace (rev (dropWhile isspace t)))"

fun startswith :: "str \<Rightarrow> str \<Rightarrow> bool" where
  "startswith [] t = True"
| "startswith (p # ps) [] = False"
| "startswith (p # ps) (c # cs) = (p = c \<and> startswith ps cs)"

text \<open>
  \<open>str.replace(old, new)\<close>: the occurrences of \<open>old\<close> are found from the left, without
  overlap. The counter is the number of characters of the current occurrence still to skip.
  An empty \<open>old\<close> matches between all characters.
\<close>

fun replace_scan :: "str \<Rightarrow> str \<Rightarrow> nat \<Rightarrow> str \<Rightarrow> str" where
  "replace_scan old new k [] = []"
| "replace_scan old new (Suc k) (c # cs) = replace_scan old new k cs"
| "replace_scan old new 0 (c # cs) =
     (if startswith old (c # cs) then new @ replace_scan old new (length old - 1) cs
      else c # replace_scan old new 0 cs)"

definition str_replace :: "str \<Rightarrow> str \<Rightarrow> str \<Rightarrow> str" where
  "str_replace old new t =
     (if old = [] then new @ concat (map (\<lambda>c. c # new) t) else replace_scan old new 0 t)"

fun split :: "nat \<Rightarrow> str \<Rightarrow> str list" where
  \<comment> \<open>\<open>str.split(sep)\<close> for a one-character separator: never an empty list\<close>
  "split sep [] = [[]]"
| "split sep (c # cs) =
     (if c = sep then [] # split sep cs
      else (case split sep cs of l # ls \<Rightarrow> (c # l) # ls | [] \<Rightarrow> [[c]]))"

fun join :: "str \<Rightarrow> str list \<Rightarrow> str" where
  \<comment> \<open>\<open>sep.join(lines)\<close>\<close>
  "join sep [] = []"
| "join sep [l] = l"
| "join sep (l # m # ls) = l @ sep @ join sep (m # ls)"

section \<open>Regular-expression substitutions\<close>

text \<open>
  \<open>re.sub\<close> scans from the left and replaces the non-overlapping matches. Each pattern
  of the source has its own scanning function below.
\<close>

definition sub_class :: "(nat \<Rightarrow> bool) \<Rightarrow> str \<Rightarrow> str \<Rightarrow> str" where
  \<comment> \<open>\<open>re.sub('[class]', r, t)\<close>: every character of the class becomes \<open>r\<close>\<close>
  "sub_class p r t = concat (map (\<lambda>c. if p c then r else [c]) t)"

text \<open>
  \<open>re.sub('[class]{n,}', r, t)\<close> for \<open>n \<ge> 1\<close> (\<open>[class]+\<close> is \<open>n = 1\<close>): the quantifier is
  greedy, so a match is a maximal run of the class, and a run shorter than \<open>n\<close> has no match
  at any of its positions.
\<close>

function sub_runs :: "(nat \<Rightarrow> bool) \<Rightarrow> nat \<Rightarrow> str \<Rightarrow> str \<Rightarrow> str" where
  "sub_runs p n r [] = []"
| "sub_runs p n r (c # cs) =
     (if p c \<and> n \<le> length (takeWhile p (c # cs)) then r @ sub_runs p n r (dropWhile p cs)
      else c # sub_runs p n r cs)"
  by pat_completeness auto
termination
  by (relation "measure (\<lambda>(p, n, r, t). length t)")
     (auto simp: less_Suc_eq_le length_dropWhile_le)


text \<open>
  \<open>re.sub('\r\n|\r', '\n', t)\<close>: the first alternative is tried first.
\<close>

fun sub_crlf :: "str \<Rightarrow> str" where
  "sub_crlf (c # d # ds) =
     (if c = 13 \<and> d = 10 then 10 # sub_crlf ds
      else if c = 13 then 10 # sub_crlf (d # ds)
      else c # sub_crlf (d # ds))"
| "sub_crlf [c] = (if c = 13 then [10] else [c])"
| "sub_crlf [] = []"

text \<open>
  \<open>re.sub('[ \t]+$', '', t, flags=re.MULTILINE)\<close>: with \<open>MULTILINE\<close>, \<open>$\<close> holds at the end of
  the string and before every newline. The run is greedy and every shorter run is followed
  by a blank, so a run matches when the character after the maximal run is a newline or
  the end.
\<close>

function sub_trailing :: "str \<Rightarrow> str" where
  "sub_trailing [] = []"
| "sub_trailing (c # cs) =
     (if is_blank c \<and> (case dropWhile is_blank cs of [] \<Rightarrow> True | d # ds \<Rightarrow> d = 10)
      then sub_trailing (dropWhile is_blank cs)
      else c # sub_trailing cs)"
  by pat_completeness auto
termination
  by (relation "measure length") (auto simp: less_Suc_eq_le length_dropWhile_le)

text \<open>
  \<open>re.sub('([.!?:;])\s+', '\1\n', t)\<close>: the punctuation mark is kept and the whole run of
  whitespace after it becomes one newline.
\<close>

function sub_sentence :: "str \<Rightarrow> str" where
  "sub_sentence [] = []"
| "sub_sentence (c # cs) =
     (if is_punct c \<and> (case cs of [] \<Rightarrow> False | d # ds \<Rightarrow> isspace d)
      then c # 10 # sub_sentence (dropWhile isspace cs)
      else c # sub_sentence cs)"
  by pat_completeness auto
termination
  by (relation "measure length") (auto simp: less_Suc_eq_le length_dropWhile_le)

text \<open>
  \<open>re.sub('\b(Mr|Mrs|Dr|Ms|Prof|vs|etc|i\.e|e\.g)\n', '\1. ', t)\<close>. The alternatives are
  tried in their order, each followed by the newline; \<open>\b\<close> holds where exactly one of the
  characters before and after the position is a word character (the ends of the string
  count as non-word). The scan carries the character before the position, which after a
  match is the newline that ended it.
\<close>

definition abbreviations :: "str list" where
  "abbreviations = map cp [''Mr'', ''Mrs'', ''Dr'', ''Ms'', ''Prof'', ''vs'', ''etc'', ''i.e'', ''e.g'']"

definition find_abbrev :: "str \<Rightarrow> str option" where
  "find_abbrev t = find (\<lambda>a. startswith (a @ [10]) t) abbreviations"

definition word_boundary :: "unicode_db \<Rightarrow> nat option \<Rightarrow> str \<Rightarrow> bool" where
  "word_boundary u prev t =
     ((case prev of None \<Rightarrow> False | Some b \<Rightarrow> is_word u b)
        \<noteq> (case t of [] \<Rightarrow> False | c # cs \<Rightarrow> is_word u c))"

function sub_abbrev :: "unicode_db \<Rightarrow> nat option \<Rightarrow> str \<Rightarrow> str" where
  "sub_abbrev u prev [] = []"
| "sub_abbrev u prev (c # cs) =
     (case find_abbrev (c # cs) of
        None \<Rightarrow> c # sub_abbrev u (Some c) cs
      | Some a \<Rightarrow>
          if word_boundary u prev (c # cs)
          then a @ [46, 32] @ sub_abbrev u (Some 10) (drop (length a) cs)
          else c # sub_abbrev u (Some c) cs)"
  by pat_completeness auto
termination
  by (relation "measure (\<lambda>(u, prev, t). length t)") auto

text \<open>
  \<open>re.sub('(\d)\n(\d)', '\1.\2', t)\<close>: a match takes three characters, and the scan goes on
  after the second digit.
\<close>

fun sub_decimal :: "unicode_db \<Rightarrow> str \<Rightarrow> str" where
  "sub_decimal u (a # b # c # cs) =
     (if is_digit u a \<and> b = 10 \<and> is_digit u c then a # 46 # c # sub_decimal u cs
      else a # sub_decimal u (b # c # cs))"
| "sub_decimal u cs = cs"

text \<open>
  \<open>re.sub(' +\n', '\n', t)\<close>: a maximal run of spaces directly before a newline is dropped.
\<close>

function sub_space_nl :: "str \<Rightarrow> str" where
  "sub_space_nl [] = []"
| "sub_space_nl (c # cs) =
     (if c = 32 \<and> (case dropWhile (\<lambda>x. x = 32) cs of [] \<Rightarrow> False | d # ds \<Rightarrow> d = 10)
      then 10 # sub_space_nl (tl (dropWhile (\<lambda>x. x = 32) cs))
      else c # sub_space_nl cs)"
  by pat_completeness auto
termination
  by (relation "measure length")
     (auto simp: less_Suc_eq_le intro: le_trans [OF diff_le_self length_dropWhile_le])

text \<open>
  \<open>re.sub('\n([A-Z][a-z]+ \d+,)', '\n\n\1', t)\<close>. \<open>match_marker\<close> gives the length of
  the group at the start of its argument. The runs \<open>[a-z]+\<close> and \<open>\d+\<close> are greedy, and no
  shorter run can match: the space is not in \<open>[a-z]\<close> and the comma is not a digit.
\<close>

definition match_marker :: "unicode_db \<Rightarrow> str \<Rightarrow> nat option" where
  "match_marker u t =
     (case t of
        [] \<Rightarrow> None
      | c # cs \<Rightarrow>
          let ls = takeWhile is_lower cs; r1 = dropWhile is_lower cs in
          (case r1 of
             [] \<Rightarrow> None
           | s # r2 \<Rightarrow>
               let ds = takeWhile (is_digit u) r2; r3 = dropWhile (is_digit u) r2 in
               (case r3 of
                  [] \<Rightarrow> None
                | k # r4 \<Rightarrow>
                    if is_upper c \<and> ls \<noteq> [] \<and> s = 32 \<and> ds \<noteq> [] \<and> k = 44
                    then Some (length ls + length ds + 3)
                    else None)))"

function sub_paragraph :: "unicode_db \<Rightarrow> str \<Rightarrow> str" where
  "sub_paragraph u [] = []"
| "sub_paragraph u (c # cs) =
     (if c = 10 then
        (case match_marker u cs of
           None \<Rightarrow> c # sub_paragraph u cs
         | Some n \<Rightarrow> [10, 10] @ take n cs @ sub_paragraph u (drop n cs))
      else c # sub_paragraph u cs)"
  by pat_completeness auto
termination
  by (relation "measure (\<lambda>(u, t). length t)") auto

section \<open>The stages of \<open>TextPreprocessor\<close>\<close>

text \<open>
  The statistics printed by \<open>_print_step_stats\<close> when \<open>verbose\<close> is set do not flow into
  the returned text; the stages are modelled by the text they return.
\<close>

definition normalize_unicode :: "unicode_db \<Rightarrow> str \<Rightarrow> str" where
  "normalize_unicode u t = nfc u t"

definition is_control :: "nat \<Rightarrow> bool" where
  \<comment> \<open>the class \<open>[\x00-\x08\x0B\x0C\x0E-\x1F\x7F-\x9F]\<close>\<close>
  "is_control c = (c \<le> 8 \<or> c = 11 \<or> c = 12 \<or> (14 \<le> c \<and> c \<le> 31) \<or> (127 \<le> c \<and> c \<le> 159))"

definition remove_control_characters :: "str \<Rightarrow> str" where
  "remove_control_characters t = sub_class is_control [] t"

definition normalize_whitespace :: "str \<Rightarrow> str" where
  "normalize_whitespace t =
     (let t1 = sub_runs is_blank 1 [32] t;
          t2 = sub_crlf t1
      in sub_trailing t2)"

definition remove_excessive_newlines :: "config \<Rightarrow> str \<Rightarrow> str" where
  "remove_excessive_newlines cfg t =
     (if preserve_paragraphs cfg then sub_runs is_newline 3 [10, 10] t
      else sub_runs is_newline 2 [10] t)"

definition remove_mid_sentence_newlines :: "unicode_db \<Rightarrow> str \<Rightarrow> str" where
  "remove_mid_sentence_newlines u t =
     (let text_no_newlines = sub_runs is_newline 1 [32] t;
          text_no_newlines = py_strip (sub_runs isspace 1 [32] text_no_newlines);
          processed = sub_sentence text_no_newlines;
          processed = sub_abbrev u None processed;
          processed = sub_decimal u processed;
          processed = sub_space_nl processed
      in sub_paragraph u processed)"

definition keep_line :: "config \<Rightarrow> str \<Rightarrow> bool" where
  \<comment> \<open>\<open>line.strip() and len(line.strip()) >= self.min_line_length\<close>\<close>
  "keep_line cfg line = (py_strip line \<noteq> [] \<and> min_line_length cfg \<le> int (length (py_strip line)))"

definition remove_empty_lines :: "config \<Rightarrow> str \<Rightarrow> str" where
  "remove_empty_lines cfg t = join [10] (filter (keep_line cfg) (split 10 t))"

text \<open>
  The dictionary literal of \<open>fix_common_encoding_issues\<close>, entry by entry as the source
  has it. The source writes the key of the em dash and the key of the en dash with the
  same three code points (U+00E2, U+20AC, U+0022). A Python dictionary keeps the place of
  the first insertion of a key and the value of the last, and \<open>items()\<close> runs in that order.
\<close>

definition replacements_literal :: "(str \<times> str) list" where
  "replacements_literal =
     [([0xE2, 0x20AC, 0x2122], [0x27]),
      ([0xE2, 0x20AC, 0x153], [0x22]),
      ([0xE2, 0x20AC], [0x22]),
      ([0xE2, 0x20AC, 0x22], [0x2014]),
      ([0xE2, 0x20AC, 0x22], [0x2013]),
      ([0xC2], []),
      ([0xE2, 0x20AC, 0xA6], [46, 46, 46])]"

fun dict_set :: "('k \<times> 'v) list \<Rightarrow> 'k \<Rightarrow> 'v \<Rightarrow> ('k \<times> 'v) list" where
  "dict_set [] k v = [(k, v)]"
| "dict_set ((k', v') # d) k v = (if k' = k then (k', v) # d else (k', v') # dict_set d k v)"

definition py_dict :: "('k \<times> 'v) list \<Rightarrow> ('k \<times> 'v) list" where
  "py_dict entries = foldl (\<lambda>d (k, v). dict_set d k v) [] entries"

definition replacements :: "(str \<times> str) list" where
  "replacements = py_dict replacements_literal"

definition fix_common_encoding_issues :: "str \<Rightarrow> str" where
  "fix_common_encoding_issues t = foldl (\<lambda>t (old, new). str_replace old new t) t replacements"

definition clean_special_characters :: "str \<Rightarrow> str" where
  "clean_special_characters t =
     (let t = sub_class (\<lambda>c. c = 0x22 \<or> c = 0x22 \<or> c = 0x22) [0x22] t;
          t = sub_class (\<lambda>c. c = 0x27 \<or> c = 0x27 \<or> c = 0x27) [0x27] t;
          t = sub_class (\<lambda>c. c = 0x2013 \<or> c = 0x2014) [45] t
      in str_replace [0x2026] [46, 46, 46] t)"

definition preprocess_text :: "unicode_db \<Rightarrow> config \<Rightarrow> str \<Rightarrow> str" where
  "preprocess_text u cfg t =
     (let t = normalize_unicode u t;
          t = remove_control_characters t;
          t = fix_common_encoding_issues t;
          t = clean_special_characters t;
          t = normalize_whitespace t;
          t = remove_excessive_newlines cfg t;
          t = remove_mid_sentence_newlines u t;
          t = remove_empty_lines cfg t
      in py_strip t)"


text \<open>
  The control codes as the specification names them: the C0 codes U+0000..U+001F other than
  tab, newline and carriage return, and the C1 codes U+0080..U+009F.
\<close>

definition spec_control :: "nat \<Rightarrow> bool" where
  "spec_control c = ((c \<le> 31 \<and> c \<noteq> 9 \<and> c \<noteq> 10 \<and> c \<noteq> 13) \<or> (128 \<le> c \<and> c \<le> 159))"

section \<open>Properties of texts\<close>

text \<open>
  \<open>contains pat t\<close>: the text \<open>t\<close> has \<open>pat\<close> as a contiguous substring (Python's
  \<open>pat in t\<close>). \<open>has_run p n t\<close>: somewhere in \<open>t\<close> there are \<open>n\<close> consecutive characters of
  the class \<open>p\<close>.
\<close>

fun contains :: "str \<Rightarrow> str \<Rightarrow> bool" where
  "contains pat [] = (pat = [])"
| "contains pat (c # cs) = (startswith pat (c # cs) \<or> contains pat cs)"

fun has_run :: "(nat \<Rightarrow> bool) \<Rightarrow> nat \<Rightarrow> str \<Rightarrow> bool" where
  "has_run p n [] = (n = 0)"
| "has_run p n (c # cs) = (n \<le> length (takeWhile p (c # cs)) \<or> has_run p n cs)"

text \<open>
  The shape of a text between the stages: \<open>ws_sep q prev t\<close> holds when the only whitespace
  in \<open>t\<close> is the space and the newline, every space comes directly after a character
  that is not whitespace, and every newline comes directly after a character of the class
  \<open>q\<close>; \<open>prev\<close> is the character before \<open>t\<close>, if any.
\<close>

fun ws_sep :: "(nat \<Rightarrow> bool) \<Rightarrow> nat option \<Rightarrow> str \<Rightarrow> bool" where
  "ws_sep q prev [] = True"
| "ws_sep q prev (c # cs) =
     ((if c = 10 then (case prev of None \<Rightarrow> False | Some b \<Rightarrow> q b)
       else if isspace c then c = 32 \<and> (case prev of None \<Rightarrow> False | Some b \<Rightarrow> \<not> isspace b)
       else True)
      \<and> ws_sep q (Some c) cs)"

text \<open>
  \<open>break_sentences\<close> is the first half of \<open>remove_mid_sentence_newlines\<close>: the newlines
  and the whitespace runs collapsed, the ends stripped, and a line break put after each
  punctuation mark that is followed by whitespace. \<open>body\<close> is the text after that half,
  in the pipeline.
\<close>

definition break_sentences :: "str \<Rightarrow> str" where
  "break_sentences t =
     sub_sentence (py_strip (sub_runs isspace 1 [32] (sub_runs is_newline 1 [32] t)))"

definition body :: "unicode_db \<Rightarrow> config \<Rightarrow> str \<Rightarrow> str" where
  "body u cfg x = break_sentences (remove_excessive_newlines cfg (normalize_whitespace
     (clean_special_characters (fix_common_encoding_issues (remove_control_characters
        (normalize_unicode u x))))))"

text \<open>
  \<open>nps prev t\<close>: in \<open>t\<close> no space comes directly after a punctuation mark of the class
  \<open>[.!?:;]\<close>.
\<close>

fun nps :: "nat option \<Rightarrow> str \<Rightarrow> bool" where
  "nps prev [] = True"
| "nps prev (c # cs) =
     (\<not> (c = 32 \<and> (case prev of None \<Rightarrow> False | Some b \<Rightarrow> is_punct b)) \<and> nps (Some c) cs)"

text \<open>
  The pipeline in two halves: the four stages that rewrite characters, and the stages that
  rebuild whitespace and lines, with the final strip.
\<close>

definition line_stages :: "unicode_db \<Rightarrow> config \<Rightarrow> str \<Rightarrow> str" where
  "line_stages u cfg t =
     py_strip (remove_empty_lines cfg (remove_mid_sentence_newlines u
       (remove_excessive_newlines cfg (normalize_whitespace t))))"

definition char_stages :: "unicode_db \<Rightarrow> str \<Rightarrow> str" where
  "char_stages u t =
     clean_special_characters (fix_common_encoding_issues (remove_control_characters
       (normalize_unicode u t)))"

text \<open>
  The characters that \<open>clean_special_characters\<close> replaces by more than themselves: the
  en dash, the em dash and the ellipsis.
\<close>

definition typographic :: "nat \<Rightarrow> bool" where
  "typographic c = (c = 0x2013 \<or> c = 0x2014 \<or> c = 0x2026)"

section \<open>The pipeline with the failures of its library calls\<close>

text \<open>
  The source has no \<open>raise\<close> of its own between the entry of \<open>preprocess_text\<close> and its
  \<open>return\<close>; what can fail is a library call. \<open>re.sub\<close> raises \<open>re.error\<close>, before it
  looks at the text, when the replacement template refers to a group that the pattern
  does not have or holds an unknown letter escape; \<open>str.split\<close> raises \<open>ValueError\<close> for
  the empty separator. \<open>unicodedata.normalize\<close> with the form \<open>'NFC'\<close>, \<open>str.replace\<close>,
  \<open>str.count\<close>, \<open>str.strip\<close>, \<open>str.join\<close> on a list of strings, \<open>len\<close>, the comparison of
  two integers and the \<open>re.findall\<close> calls of the statistics (patterns without a
  template) have no failing case on strings.
\<close>

datatype error = ValueError | ReError

definition and_then :: "error + 'a \<Rightarrow> ('a \<Rightarrow> error + 'b) \<Rightarrow> error + 'b" where
  "and_then r f = (case r of Inl e \<Rightarrow> Inl e | Inr v \<Rightarrow> f v)"

text \<open>
  A replacement template, piece by piece: a literal character, a group reference \<open>\N\<close>,
  or an escape \<open>\c\<close>. A reference is accepted when the pattern has that group; an escape
  by an ASCII letter is accepted for the letters \<open>a b f n r t v\<close> only.
\<close>

datatype piece = Lit nat | Ref nat | Esc nat

fun piece_ok :: "nat \<Rightarrow> piece \<Rightarrow> bool" where
  "piece_ok groups (Lit c) = True"
| "piece_ok groups (Ref n) = (1 \<le> n \<and> n \<le> groups)"
| "piece_ok groups (Esc c) =
     (\<not> ((65 \<le> c \<and> c \<le> 90) \<or> (97 \<le> c \<and> c \<le> 122)) \<or> c \<in> set (cp ''abfnrtv''))"

definition re_sub :: "nat \<Rightarrow> piece list \<Rightarrow> (str \<Rightarrow> str) \<Rightarrow> str \<Rightarrow> error + str" where
  \<comment> \<open>\<open>re.sub(pattern, template, t)\<close>: \<open>groups\<close> is the number of groups of the pattern,
      \<open>scan\<close> the scanning function of the pattern and template\<close>
  "re_sub groups template scan t =
     (if list_all (piece_ok groups) template then Inr (scan t) else Inl ReError)"

text \<open>
  \<open>str.split(sep)\<close> for any separator; the counter is the number of characters of the
  separator just found that are still to skip.
\<close>

fun split_scan :: "str \<Rightarrow> nat \<Rightarrow> str \<Rightarrow> str list" where
  "split_scan sep k [] = [[]]"
| "split_scan sep (Suc k) (c # cs) = split_scan sep k cs"
| "split_scan sep 0 (c # cs) =
     (if startswith sep (c # cs) then [] # split_scan sep (length sep - 1) cs
      else (case split_scan sep 0 cs of l # ls \<Rightarrow> (c # l) # ls | [] \<Rightarrow> [[c]]))"

definition str_split :: "str \<Rightarrow> str \<Rightarrow> error + str list" where
  "str_split sep t = (if sep = [] then Inl ValueError else Inr (split_scan sep 0 t))"

text \<open>The stages again, call by call, each \<open>re.sub\<close> with its group count and template.\<close>

definition normalize_unicode_run :: "unicode_db \<Rightarrow> str \<Rightarrow> error + str" where
  "normalize_unicode_run u t = Inr (nfc u t)"

definition remove_control_characters_run :: "str \<Rightarrow> error + str" where
  "remove_control_characters_run t = re_sub 0 [] (sub_class is_control []) t"

definition fix_common_encoding_issues_run :: "str \<Rightarrow> error + str" where
  "fix_common_encoding_issues_run t =
     Inr (foldl (\<lambda>t (old, new). str_replace old new t) t replacements)"

definition clean_special_characters_run :: "str \<Rightarrow> error + str" where
  "clean_special_characters_run t =
     and_then (re_sub 0 [Lit 0x22]
       (sub_class (\<lambda>c. c = 0x22 \<or> c = 0x22 \<or> c = 0x22) [0x22]) t) (\<lambda>t.
     and_then (re_sub 0 [Lit 0x27]
       (sub_class (\<lambda>c. c = 0x27 \<or> c = 0x27 \<or> c = 0x27) [0x27]) t) (\<lambda>t.
     and_then (re_sub 0 [Lit 45] (sub_class (\<lambda>c. c = 0x2013 \<or> c = 0x2014) [45]) t) (\<lambda>t.
     Inr (str_replace [0x2026] [46, 46, 46] t))))"

definition normalize_whitespace_run :: "str \<Rightarrow> error + str" where
  "normalize_whitespace_run t =
     and_then (re_sub 0 [Lit 32] (sub_runs is_blank 1 [32]) t) (\<lambda>t.
     and_then (re_sub 0 [Lit 10] sub_crlf t) (\<lambda>t.
     re_sub 0 [] sub_trailing t))"

definition remove_excessive_newlines_run :: "config \<Rightarrow> str \<Rightarrow> error + str" where
  "remove_excessive_newlines_run cfg t =
     (if preserve_paragraphs cfg then re_sub 0 [Lit 10, Lit 10] (sub_runs is_newline 3 [10, 10]) t
      else re_sub 0 [Lit 10] (sub_runs is_newline 2 [10]) t)"

definition remove_mid_sentence_newlines_run :: "unicode_db \<Rightarrow> str \<Rightarrow> error + str" where
  "remove_mid_sentence_newlines_run u t =
     and_then (re_sub 0 [Lit 32] (sub_runs is_newline 1 [32]) t) (\<lambda>text_no_newlines.
     and_then (re_sub 0 [Lit 32] (sub_runs isspace 1 [32]) text_no_newlines) (\<lambda>collapsed.
     and_then (re_sub 1 [Ref 1, Esc 110] sub_sentence (py_strip collapsed)) (\<lambda>processed.
     and_then (re_sub 1 [Ref 1, Lit 46, Lit 32] (sub_abbrev u None) processed) (\<lambda>processed.
     and_then (re_sub 2 [Ref 1, Lit 46, Ref 2] (sub_decimal u) processed) (\<lambda>processed.
     and_then (re_sub 0 [Lit 10] sub_space_nl processed) (\<lambda>processed.
     re_sub 1 [Esc 110, Esc 110, Ref 1] (sub_paragraph u) processed))))))"

definition remove_empty_lines_run :: "config \<Rightarrow> str \<Rightarrow> error + str" where
  "remove_empty_lines_run cfg t =
     and_then (str_split [10] t) (\<lambda>lines. Inr (join [10] (filter (keep_line cfg) lines)))"

definition preprocess_text_run :: "unicode_db \<Rightarrow> config \<Rightarrow> str \<Rightarrow> error + str" where
  "preprocess_text_run u cfg t =
     and_then (normalize_unicode_run u t) (\<lambda>t.
     and_then (remove_control_characters_run t) (\<lambda>t.
     and_then (fix_common_encoding_issues_run t) (\<lambda>t.
     and_then (clean_special_characters_run t) (\<lambda>t.
     and_then (normalize_whitespace_run t) (\<lambda>t.
     and_then (remove_excessive_newlines_run cfg t) (\<lambda>t.
     and_then (remove_mid_sentence_newlines_run u t) (\<lambda>t.
     and_then (remove_empty_lines_run cfg t) (\<lambda>t.
     Inr (py_strip t)))))))))"

section \<open>Evaluation lemmas\<close>

lemma cp_simps: "cp [] = []" "cp (c # cs) = of_char c # cp cs"
  by (simp_all add: cp_def)

lemma abbreviations_eq:
  "abbreviations = [[77, 114], [77, 114, 115], [68, 114], [77, 115], [80, 114, 111, 102],
     [118, 115], [101, 116, 99], [105, 46, 101], [101, 46, 103]]"
  by (simp add: abbreviations_def cp_simps)

lemma replacements_eq:
  "replacements = [([226, 8364, 8482], [39]), ([226, 8364, 339], [34]), ([226, 8364], [34]),
     ([226, 8364, 34], [8211]), ([194], []), ([226, 8364, 166], [46, 46, 46])]"
  by (simp add: replacements_def py_dict_def replacements_literal_def)

section \<open>Encoding repair\<close>

text \<open>
  C1. The table's dash pattern (U+00E2, U+20AC, U+0022) has the close-quote pattern
  (U+00E2, U+20AC) as a proper prefix, and the close-quote pattern comes first in the
  dictionary. On the text that is exactly the dash pattern the stage returns two straight
  double quotes: the prefix is replaced first and the dash pattern never matches.
\<close>

theorem fix_common_encoding_issues_dash_pattern:
  "fix_common_encoding_issues [0xE2, 0x20AC, 0x22] = [0x22, 0x22]"
  by (simp add: fix_common_encoding_issues_def replacements_eq str_replace_def)

section \<open>Sentence re-segmentation on the specification's example\<close>

text \<open>
  C2. On the example text the stage keeps \<open>38.5\<close> in one piece, and it leaves a line
  break directly after \<open>Dr.\<close>: the break is inserted after the period, so the text reads
  \<open>Dr.\<close>, newline, and the abbreviation pattern (\<open>Dr\<close> directly before the newline) does
  not match. The result does not depend on the Unicode tables.
\<close>

theorem remove_mid_sentence_newlines_example:
  "remove_mid_sentence_newlines u
     (cp ''Patient presented with fever.'' @ [10] @ cp ''Temperature was 38.5 C.'' @ [10]
        @ cp ''Dr. Smith examined the patient.'')
   = cp ''Patient presented with fever.'' @ [10] @ cp ''Temperature was 38.5 C.'' @ [10]
        @ cp ''Dr.'' @ [10] @ cp ''Smith examined the patient.''"
  by (simp add: cp_simps remove_mid_sentence_newlines_def py_strip_def isspace_def
      is_newline_def is_punct_def find_abbrev_def abbreviations_eq is_digit_def
      match_marker_def is_upper_def is_lower_def Let_def)

section \<open>Control characters\<close>

text \<open>
  C8, as stated, fails: DEL (U+007F) is neither a C0 nor a C1 code, and the stage removes
  it.
\<close>

theorem remove_control_characters_del:
  "\<not> spec_control 127 \<and> remove_control_characters [65, 127, 66] = [65, 66]"
  by (simp add: spec_control_def remove_control_characters_def sub_class_def is_control_def)

text \<open>
  C8, amended. The stage removes exactly the C0 codes other than tab, newline and carriage
  return, DEL, and the C1 codes; every other code point stays, in the original order.
\<close>

theorem remove_control_characters_filter:
  "remove_control_characters t = filter (\<lambda>c. \<not> (spec_control c \<or> c = 127)) t"
proof -
  have cls: "is_control c = (spec_control c \<or> c = 127)" for c
    unfolding is_control_def spec_control_def by arith
  show ?thesis
    unfolding remove_control_characters_def sub_class_def
    by (induction t) (simp_all add: cls)
qed

section \<open>Newline runs and the paragraph flag\<close>

lemma sub_runs_Nil_iff: "r \<noteq> [] \<Longrightarrow> (sub_runs p n r t = []) = (t = [])"
  by (cases t) auto

lemma sub_runs_hd: "r \<noteq> [] \<Longrightarrow> list_all p r \<Longrightarrow> t \<noteq> [] \<Longrightarrow> p (hd (sub_runs p n r t)) = p (hd t)"
  by (cases t; cases r) auto

lemma sub_runs_one_drop:
  assumes "sub_runs p (Suc 0) s a = sub_runs p (Suc 0) s b"
    and "(a = []) = (b = [])" and "a \<noteq> [] \<Longrightarrow> p (hd a) = p (hd b)"
  shows "sub_runs p (Suc 0) s (dropWhile p a) = sub_runs p (Suc 0) s (dropWhile p b)"
proof (cases a)
  case Nil
  then show ?thesis using assms by simp
next
  case (Cons x xs)
  then obtain y ys where b: "b = y # ys" using assms(2) by (cases b) auto
  show ?thesis
  proof (cases "p x")
    case True
    then have "p y" using assms(3) Cons b by simp
    with True assms(1) Cons b show ?thesis by simp
  next
    case False
    then have "\<not> p y" using assms(3) Cons b by simp
    with False assms(1) Cons b show ?thesis by simp
  qed
qed

lemma sub_runs_absorb:
  "r \<noteq> [] \<Longrightarrow> list_all p r \<Longrightarrow> sub_runs p (Suc 0) s (sub_runs p n r t) = sub_runs p (Suc 0) s t"
proof (induction p n r t rule: sub_runs.induct)
  case (1 p n r)
  then show ?case by simp
next
  case (2 p n r c cs)
  let ?S = "sub_runs p (Suc 0) s"
  show ?case
  proof (cases "p c \<and> n \<le> length (takeWhile p (c # cs))")
    case True
    then have pc: "p c" by simp
    obtain x r' where r: "r = x # r'" using 2(3) by (cases r) auto
    have px: "p x" and pr': "\<forall>y\<in>set r'. p y" using 2(4) r by (auto simp: list_all_iff)
    let ?d = "dropWhile p cs"
    have ih: "?S (sub_runs p n r ?d) = ?S ?d" using 2(1)[OF True 2(3) 2(4)] .
    have nohd: "dropWhile p (sub_runs p n r ?d) = sub_runs p n r ?d"
    proof -
      define d where "d = dropWhile p cs"
      have "dropWhile p (sub_runs p n r d) = sub_runs p n r d"
      proof (cases d)
        case Nil
        then show ?thesis by simp
      next
        case (Cons y ys)
        then have "\<not> p y" unfolding d_def by (metis dropWhile_eq_Cons_conv)
        with Cons show ?thesis by simp
      qed
      then show ?thesis unfolding d_def .
    qed
    have len: "n \<le> Suc (length (takeWhile p cs))" using True by auto
    have "sub_runs p n r (c # cs) = x # r' @ sub_runs p n r ?d"
      using pc len r by simp
    then have "?S (sub_runs p n r (c # cs)) = s @ ?S (dropWhile p (r' @ sub_runs p n r ?d))"
      using px by simp
    also have "dropWhile p (r' @ sub_runs p n r ?d) = sub_runs p n r ?d"
      using pr' nohd by simp
    finally show ?thesis using ih pc by simp
  next
    case False
    have ih: "?S (sub_runs p n r cs) = ?S cs" using 2(2)[OF False 2(3) 2(4)] .
    have E: "sub_runs p n r (c # cs) = c # sub_runs p n r cs" using False by auto
    show ?thesis
    proof (cases "p c")
      case True
      have "?S (dropWhile p (sub_runs p n r cs)) = ?S (dropWhile p cs)"
        by (rule sub_runs_one_drop[OF ih])
           (simp_all add: sub_runs_Nil_iff[OF 2(3)] sub_runs_hd[OF 2(3) 2(4)])
      then show ?thesis using True E by simp
    next
      case False
      then show ?thesis using E ih by simp
    qed
  qed
qed

lemma remove_excessive_absorbed:
  "sub_runs is_newline (Suc 0) [32] (remove_excessive_newlines cfg t) = sub_runs is_newline (Suc 0) [32] t"
  by (simp add: remove_excessive_newlines_def sub_runs_absorb is_newline_def)

text \<open>
  C10. The flag \<open>preserve_paragraphs\<close> has no effect on the result: it only chooses the
  length to which \<open>remove_excessive_newlines\<close> shortens a run of newlines, and the next
  stage turns every run of newlines into one space.
\<close>

theorem preprocess_text_ignores_preserve_paragraphs:
  "preprocess_text u (cfg\<lparr>preserve_paragraphs := True\<rparr>) x
     = preprocess_text u (cfg\<lparr>preserve_paragraphs := False\<rparr>) x"
proof -
  have k: "keep_line (cfg\<lparr>preserve_paragraphs := b\<rparr>) = keep_line cfg" for b
    by (rule ext) (simp add: keep_line_def)
  have m: "remove_mid_sentence_newlines u (remove_excessive_newlines c t)
      = remove_mid_sentence_newlines u t" for c t
    using remove_excessive_absorbed[of c t] by (simp add: remove_mid_sentence_newlines_def)
  show ?thesis
    by (simp add: preprocess_text_def Let_def m remove_empty_lines_def k)
qed

section \<open>The empty text\<close>

lemma preprocess_text_Nil:
  "nfc u [] = [] \<Longrightarrow> preprocess_text u cfg [] = []"
  by (simp add: preprocess_text_def normalize_unicode_def remove_control_characters_def
      sub_class_def fix_common_encoding_issues_def replacements_eq str_replace_def
      clean_special_characters_def normalize_whitespace_def remove_excessive_newlines_def
      remove_mid_sentence_newlines_def py_strip_def remove_empty_lines_def keep_line_def)

section \<open>The shape of the text after sentence breaking\<close>

lemma isspace_consts [simp]: "isspace 10" "isspace 32" "isspace 9"
  by (simp_all add: isspace_def)

lemma is_punct_not_space: "is_punct c \<Longrightarrow> \<not> isspace c"
  by (auto simp: is_punct_def isspace_def)

lemma is_blank_space: "is_blank c \<Longrightarrow> isspace c"
  by (auto simp: is_blank_def isspace_def)

lemma rstrip_Cons:
  "rev (dropWhile P (rev (c # cs))) =
     (if \<forall>x\<in>set cs. P x then (if P c then [] else [c]) else c # rev (dropWhile P (rev cs)))"
  by (simp add: dropWhile_append)

lemma rstrip_last:
  "rev (dropWhile P (rev t)) = [] \<or> \<not> P (last (rev (dropWhile P (rev t))))"
proof (cases "dropWhile P (rev t)")
  case Nil
  then show ?thesis by simp
next
  case (Cons y ys)
  then have "\<not> P y" by (metis dropWhile_eq_Cons_conv)
  with Cons show ?thesis by simp
qed

lemma ws_sep_rstrip: "ws_sep q prev t \<Longrightarrow> ws_sep q prev (rev (dropWhile P (rev t)))"
proof (induction t arbitrary: prev)
  case Nil
  then show ?case by simp
next
  case (Cons c cs)
  from Cons.prems have "ws_sep q (Some c) (rev (dropWhile P (rev cs)))"
    by (intro Cons.IH) simp
  with Cons.prems show ?case
    unfolding rstrip_Cons by simp
qed

lemma ws_sep_dropWhile: "ws_sep q prev t \<Longrightarrow> ws_sep q prev' (dropWhile isspace t)"
proof (induction t arbitrary: prev)
  case Nil
  then show ?case by simp
next
  case (Cons c cs)
  show ?case
  proof (cases "isspace c")
    case True
    from Cons.prems have "ws_sep q (Some c) cs" by simp
    then have "ws_sep q prev' (dropWhile isspace cs)" by (rule Cons.IH)
    with True show ?thesis by simp
  next
    case False
    then have "c \<noteq> 10" by auto
    with False Cons.prems show ?thesis by simp
  qed
qed

lemma ws_sep_collapse:
  "(t \<noteq> [] \<Longrightarrow> isspace (hd t) \<Longrightarrow> \<exists>b. prev = Some b \<and> \<not> isspace b)
     \<Longrightarrow> ws_sep q prev (sub_runs isspace (Suc 0) [32] t)"
proof (induction "length t" arbitrary: t prev rule: less_induct)
  case less
  show ?case
  proof (cases t)
    case Nil
    then show ?thesis by simp
  next
    case (Cons c cs)
    show ?thesis
    proof (cases "isspace c")
      case True
      let ?d = "dropWhile isspace cs"
      have "length ?d < length t" using Cons by (simp add: less_Suc_eq_le length_dropWhile_le)
      moreover have "?d \<noteq> [] \<Longrightarrow> \<not> isspace (hd ?d)" by (rule hd_dropWhile)
      ultimately have "ws_sep q (Some 32) (sub_runs isspace (Suc 0) [32] ?d)"
        by (intro less.hyps) auto
      moreover obtain b where "prev = Some b" "\<not> isspace b" using less.prems Cons True by auto
      ultimately show ?thesis using Cons True by simp
    next
      case False
      have "ws_sep q (Some c) (sub_runs isspace (Suc 0) [32] cs)"
        using Cons False by (intro less.hyps) auto
      moreover have "c \<noteq> 10" using False by auto
      ultimately show ?thesis using Cons False by simp
    qed
  qed
qed

lemma stripped_shape:
  "ws_sep q None (py_strip (sub_runs isspace (Suc 0) [32] t))"
  "py_strip t = [] \<or> \<not> isspace (last (py_strip t))"
proof -
  have "ws_sep q (Some 0) (sub_runs isspace (Suc 0) [32] t)"
    by (rule ws_sep_collapse) (simp add: isspace_def)
  then show "ws_sep q None (py_strip (sub_runs isspace (Suc 0) [32] t))"
    unfolding py_strip_def by (intro ws_sep_rstrip ws_sep_dropWhile)
  show "py_strip t = [] \<or> \<not> isspace (last (py_strip t))"
    unfolding py_strip_def by (rule rstrip_last)
qed

lemma sub_sentence_ws_sep:
  "ws_sep (\<lambda>b. False) prev t \<Longrightarrow> ws_sep is_punct prev (sub_sentence t)"
proof (induction t arbitrary: prev rule: sub_sentence.induct)
  case 1
  then show ?case by simp
next
  case (2 c cs)
  show ?case
  proof (cases "is_punct c \<and> (case cs of [] \<Rightarrow> False | d # ds \<Rightarrow> isspace d)")
    case True
    then have pc: "is_punct c" by simp
    then have nsc: "\<not> isspace c" by (rule is_punct_not_space)
    then have c10: "c \<noteq> 10" by auto
    have "ws_sep (\<lambda>b. False) (Some c) cs" using "2.prems" by simp
    then have "ws_sep (\<lambda>b. False) (Some 10) (dropWhile isspace cs)" by (rule ws_sep_dropWhile)
    then have "ws_sep is_punct (Some 10) (sub_sentence (dropWhile isspace cs))"
      using True by (intro "2.IH"(1)) auto
    then show ?thesis using True pc nsc c10 by simp
  next
    case False
    have "ws_sep is_punct (Some c) (sub_sentence cs)"
      using False "2.prems" by (intro "2.IH"(2)) auto
    moreover have "c \<noteq> 10" using "2.prems" by (auto split: if_splits option.splits)
    ultimately show ?thesis using False "2.prems" by auto
  qed
qed

lemma sub_sentence_last:
  "t \<noteq> [] \<Longrightarrow> \<not> isspace (last t) \<Longrightarrow> sub_sentence t \<noteq> [] \<and> last (sub_sentence t) = last t"
proof (induction t rule: sub_sentence.induct)
  case 1
  then show ?case by simp
next
  case (2 c cs)
  show ?case
  proof (cases "is_punct c \<and> (case cs of [] \<Rightarrow> False | d # ds \<Rightarrow> isspace d)")
    case True
    then have ne: "cs \<noteq> []" by auto
    then have l: "\<not> isspace (last cs)" using "2.prems" by simp
    then have m: "last cs \<in> set cs \<and> \<not> isspace (last cs)" using ne by simp
    then have d: "dropWhile isspace cs \<noteq> []" by auto
    have dl: "last (dropWhile isspace cs) = last cs" using m by (intro dropWhile_last) auto
    have "sub_sentence (dropWhile isspace cs) \<noteq> [] \<and>
        last (sub_sentence (dropWhile isspace cs)) = last (dropWhile isspace cs)"
      using True d l dl by (intro "2.IH"(1)) auto
    then show ?thesis using True ne dl by simp
  next
    case False
    show ?thesis
    proof (cases cs)
      case Nil
      then show ?thesis by simp
    next
      case (Cons d ds)
      then have "sub_sentence cs \<noteq> [] \<and> last (sub_sentence cs) = last cs"
        using False "2.prems" by (intro "2.IH"(2)) auto
      then show ?thesis using False Cons by auto
    qed
  qed
qed

section \<open>The substitutions that never match\<close>

text \<open>
  After \<open>break_sentences\<close> every newline stands directly after a punctuation mark. The
  abbreviation pattern needs a letter there, the decimal pattern a digit and the
  space-newline pattern a space, so none of the three substitutions changes the text.
\<close>

lemma startswith_iff: "startswith p t = (\<exists>r. t = p @ r)"
  by (induction p t rule: startswith.induct) auto

lemma ws_sep_append:
  "ws_sep q prev (a @ t) = (ws_sep q prev a \<and> ws_sep q (if a = [] then prev else Some (last a)) t)"
  by (induction a arbitrary: prev) auto

lemma ws_sep_newline_after:
  assumes "ws_sep q prev (a @ 10 # r)" and "a \<noteq> []"
  shows "q (last a)"
  using assms by (simp add: ws_sep_append)

lemma find_abbrev_None: "ws_sep is_punct prev t \<Longrightarrow> find_abbrev t = None"
proof (rule ccontr)
  assume w: "ws_sep is_punct prev t" and "find_abbrev t \<noteq> None"
  then obtain a where "find_abbrev t = Some a" by auto
  then have a: "a \<in> set abbreviations" and "startswith (a @ [10]) t"
    unfolding find_abbrev_def by (auto simp: find_Some_iff)
  then obtain r where t: "t = a @ 10 # r" by (auto simp: startswith_iff)
  have ne: "a \<noteq> []" using a by (auto simp: abbreviations_eq)
  have "is_punct (last a)" using w ne unfolding t by (rule ws_sep_newline_after)
  moreover have "\<not> is_punct (last a)" using a by (auto simp: abbreviations_eq is_punct_def)
  ultimately show False by simp
qed

lemma ws_sep_tl: "ws_sep q prev (c # cs) \<Longrightarrow> ws_sep q (Some c) cs"
  by simp

lemma sub_abbrev_id: "ws_sep is_punct prev' t \<Longrightarrow> sub_abbrev u prev t = t"
proof (induction u prev t arbitrary: prev' rule: sub_abbrev.induct)
  case (1 u prev)
  then show ?case by simp
next
  case (2 u prev c cs)
  have n: "find_abbrev (c # cs) = None" using "2.prems" by (rule find_abbrev_None)
  have "sub_abbrev u (Some c) cs = cs"
    using n ws_sep_tl[OF "2.prems"] by (rule "2.IH"(1))
  with n show ?case by simp
qed

lemma is_digit_not_punct: "is_digit u c \<Longrightarrow> \<not> is_punct c"
  by (auto simp: is_digit_def is_punct_def)

lemma sub_decimal_id: "ws_sep is_punct prev t \<Longrightarrow> sub_decimal u t = t"
proof (induction u t arbitrary: prev rule: sub_decimal.induct)
  case (1 u a b c cs)
  have "\<not> (is_digit u a \<and> b = 10 \<and> is_digit u c)"
  proof
    assume h: "is_digit u a \<and> b = 10 \<and> is_digit u c"
    then have "is_punct a" using "1.prems" by simp
    with h show False using is_digit_not_punct by blast
  qed
  moreover from this have "sub_decimal u (b # c # cs) = b # c # cs"
    using ws_sep_tl[OF "1.prems"] by (rule "1.IH")
  ultimately show ?case by auto
qed simp_all

lemma sub_space_nl_id: "ws_sep is_punct prev t \<Longrightarrow> sub_space_nl t = t"
proof (induction t arbitrary: prev rule: sub_space_nl.induct)
  case 1
  then show ?case by simp
next
  case (2 c cs)
  let ?d = "dropWhile (\<lambda>x. x = 32) cs"
  have no: "\<not> (c = 32 \<and> (case ?d of [] \<Rightarrow> False | d # ds \<Rightarrow> d = 10))"
  proof
    assume h: "c = 32 \<and> (case ?d of [] \<Rightarrow> False | d # ds \<Rightarrow> d = 10)"
    then obtain ds where d: "?d = 10 # ds" by (auto split: list.splits)
    define a where "a = c # takeWhile (\<lambda>x. x = 32) cs"
    have "c # cs = a @ 10 # ds"
      unfolding a_def using d takeWhile_dropWhile_id[of "\<lambda>x. x = 32" cs] by simp
    moreover have "a \<noteq> []" by (simp add: a_def)
    ultimately have "is_punct (last a)" using "2.prems" ws_sep_newline_after by metis
    moreover have "\<forall>x\<in>set a. x = 32" using h by (auto simp: a_def dest: set_takeWhileD)
    then have "last a = 32" using \<open>a \<noteq> []\<close> last_in_set by blast
    ultimately show False by (simp add: is_punct_def)
  qed
  moreover from this have "sub_space_nl cs = cs"
    using ws_sep_tl[OF "2.prems"] by (rule "2.IH"(2))
  ultimately show ?case by auto
qed

lemma split_ne [simp]: "split sep t \<noteq> []"
  by (induction t) (auto split: list.splits)

lemma split_Cons:
  "split sep (c # cs) =
     (if c = sep then [] # split sep cs else (c # hd (split sep cs)) # tl (split sep cs))"
  by (cases "split sep cs") (use split_ne[of sep cs] in auto)

lemma split_hd_tl: "hd (split sep t) # tl (split sep t) = split sep t"
  by simp

lemma split_append:
  "split sep (a @ b) =
     butlast (split sep a) @ (last (split sep a) @ hd (split sep b)) # tl (split sep b)"
proof (induction a)
  case Nil
  then show ?case by simp
next
  case (Cons c a)
  show ?case
  proof (cases "butlast (split sep a)")
    case Nil
    then have "split sep a = [last (split sep a)]"
      by (metis append_butlast_last_id append_Nil split_ne)
    then obtain l where l: "split sep a = [l]" by blast
    show ?thesis using Cons unfolding append_Cons split_Cons l by simp
  next
    case (Cons x xs)
    then obtain y ys where a: "split sep a = x # y # ys"
      by (metis append_butlast_last_id append_Cons split_ne list.exhaust append_Nil)
    have "butlast (split sep a) = x # butlast (y # ys)" using a by simp
    then show ?thesis using Cons.IH unfolding append_Cons split_Cons a by simp
  qed
qed

lemma filter_hd_tl:
  "xs \<noteq> [] \<Longrightarrow> ys \<noteq> [] \<Longrightarrow> hd xs = hd ys \<Longrightarrow> filter K (tl xs) = filter K (tl ys)
     \<Longrightarrow> filter K xs = filter K ys"
  by (cases xs; cases ys) simp_all

lemma sub_paragraph_lines:
  assumes K: "\<not> K []"
  shows "hd (split 10 (sub_paragraph u t)) = hd (split 10 t)
     \<and> filter K (tl (split 10 (sub_paragraph u t))) = filter K (tl (split 10 t))"
proof (induction u t rule: sub_paragraph.induct)
  case (1 u)
  then show ?case by simp
next
  case (2 u c cs)
  have whole: "filter K (split 10 (sub_paragraph u x)) = filter K (split 10 x)"
    if "hd (split 10 (sub_paragraph u x)) = hd (split 10 x)
     \<and> filter K (tl (split 10 (sub_paragraph u x))) = filter K (tl (split 10 x))" for x
  proof (rule filter_hd_tl)
    show "hd (split 10 (sub_paragraph u x)) = hd (split 10 x)" using that by simp
    show "filter K (tl (split 10 (sub_paragraph u x))) = filter K (tl (split 10 x))"
      using that by simp
  qed simp_all
  show ?case
  proof (cases "c = 10")
    case False
    then show ?thesis using "2.IH"(3) by (simp add: split_Cons del: split.simps)
  next
    case True
    show ?thesis
    proof (cases "match_marker u cs")
      case None
      then show ?thesis using True whole[OF "2.IH"(1)[OF True None]] by (simp add: split_Cons del: split.simps)
    next
      case (Some n)
      let ?a = "take n cs" and ?d = "drop n cs"
      note ih = "2.IH"(2)[OF True Some]
      have "filter K (split 10 (?a @ sub_paragraph u ?d)) = filter K (split 10 (?a @ ?d))"
        unfolding split_append[of 10 ?a] using ih by simp
      then show ?thesis using True Some K by (simp add: split_Cons del: split.simps)
    qed
  qed
qed

lemma sub_paragraph_filter:
  assumes K: "\<not> K []"
  shows "filter K (split 10 (sub_paragraph u t)) = filter K (split 10 t)"
proof (rule filter_hd_tl)
  show "hd (split 10 (sub_paragraph u t)) = hd (split 10 t)"
    using sub_paragraph_lines[of K u t, OF K] by simp
  show "filter K (tl (split 10 (sub_paragraph u t))) = filter K (tl (split 10 t))"
    using sub_paragraph_lines[of K u t, OF K] by simp
qed simp_all

lemma break_sentences_shape:
  "ws_sep is_punct None (break_sentences t)"
  "break_sentences t = [] \<or> \<not> isspace (last (break_sentences t))"
proof -
  let ?T = "py_strip (sub_runs isspace (Suc 0) [32] (sub_runs is_newline (Suc 0) [32] t))"
  have bs: "break_sentences t = sub_sentence ?T" by (simp add: break_sentences_def)
  show "ws_sep is_punct None (break_sentences t)"
    unfolding bs by (rule sub_sentence_ws_sep) (rule stripped_shape)
  show "break_sentences t = [] \<or> \<not> isspace (last (break_sentences t))"
  proof (cases "?T = []")
    case True
    then show ?thesis unfolding bs by simp
  next
    case False
    moreover have "\<not> isspace (last ?T)" using False stripped_shape(2) by blast
    ultimately show ?thesis unfolding bs using sub_sentence_last by simp
  qed
qed

lemma remove_mid_sentence_newlines_eq:
  "remove_mid_sentence_newlines u t = sub_paragraph u (break_sentences t)"
proof -
  note w = break_sentences_shape(1)[of t]
  have "sub_space_nl (sub_decimal u (sub_abbrev u None (break_sentences t))) = break_sentences t"
    using w by (simp add: sub_abbrev_id sub_decimal_id sub_space_nl_id)
  then show ?thesis
    by (simp add: remove_mid_sentence_newlines_def break_sentences_def Let_def)
qed

lemma keep_line_Nil: "\<not> keep_line cfg []"
  by (simp add: keep_line_def py_strip_def)

lemma remove_empty_lines_resegmented:
  "remove_empty_lines cfg (remove_mid_sentence_newlines u t)
     = join [10] (filter (keep_line cfg) (split 10 (break_sentences t)))"
  by (simp add: remove_empty_lines_def remove_mid_sentence_newlines_eq
      sub_paragraph_filter[of "keep_line cfg", OF keep_line_Nil])

lemma hd_split_Nil: "(hd (split sep t) = []) = (t = [] \<or> hd t = sep)"
  by (cases t) (simp_all add: split_Cons del: split.simps(2))

lemma split_all:
  "P (hd (split sep t)) \<Longrightarrow> (\<forall>l\<in>set (tl (split sep t)). P l) \<Longrightarrow> l \<in> set (split sep t) \<Longrightarrow> P l"
  by (metis split_hd_tl set_ConsD)

lemma ws_sep_mono: "(\<And>b. q b \<Longrightarrow> q' b) \<Longrightarrow> ws_sep q prev t \<Longrightarrow> ws_sep q' prev t"
  by (induction t arbitrary: prev) (auto split: option.splits if_splits)

lemma ws_sep_hd:
  "ws_sep q prev t \<Longrightarrow> (\<And>b. q b \<Longrightarrow> \<not> isspace b) \<Longrightarrow> (\<And>b. prev = Some b \<Longrightarrow> isspace b)
     \<Longrightarrow> t \<noteq> [] \<Longrightarrow> \<not> isspace (hd t)"
  by (cases t) (auto split: option.splits if_splits)

lemma ws_sep_prev: "t = [] \<or> \<not> isspace (hd t) \<Longrightarrow> ws_sep q prev t \<Longrightarrow> ws_sep q prev' t"
  by (cases t) (auto split: option.splits if_splits)

lemma ws_sep_lines:
  "ws_sep is_punct prev t \<Longrightarrow> t = [] \<or> \<not> isspace (last t) \<Longrightarrow>
     ws_sep (\<lambda>b. False) prev (hd (split 10 t))
     \<and> (hd (split 10 t) = [] \<or> \<not> isspace (last (hd (split 10 t))))
     \<and> (\<forall>l\<in>set (tl (split 10 t)).
           ws_sep (\<lambda>b. False) None l \<and> (l = [] \<or> \<not> isspace (last l)))"
proof (induction t arbitrary: prev)
  case Nil
  then show ?case by simp
next
  case (Cons c cs)
  have w: "ws_sep is_punct (Some c) cs" using Cons.prems(1) by simp
  have e: "cs = [] \<or> \<not> isspace (last cs)" using Cons.prems(2) by (cases cs) auto
  note ih = Cons.IH[OF w e]
  let ?h = "hd (split 10 cs)"
  show ?case
  proof (cases "c = 10")
    case True
    have ne: "cs \<noteq> []" using Cons.prems(2) True by auto
    then have nh: "\<not> isspace (hd cs)"
      using True by (intro ws_sep_hd[OF w]) (auto dest: is_punct_not_space)
    have "?h = [] \<or> \<not> isspace (hd ?h)"
      using nh ne by (cases cs) (auto simp: split_Cons simp del: split.simps)
    then have "ws_sep (\<lambda>b. False) None ?h" using ih ws_sep_prev by blast
    then have "\<forall>l\<in>set (split 10 cs).
        ws_sep (\<lambda>b. False) None l \<and> (l = [] \<or> \<not> isspace (last l))"
      using ih split_all[of "\<lambda>l. ws_sep (\<lambda>b. False) None l \<and> (l = [] \<or> \<not> isspace (last l))" 10 cs]
      by blast
    then show ?thesis using True by (simp add: split_Cons del: split.simps)
  next
    case False
    have c1: "ws_sep (\<lambda>b. False) prev (c # ?h)"
      using Cons.prems(1) False ih by simp
    have c2: "\<not> isspace (last (c # ?h))"
    proof (cases "?h = []")
      case True
      then have "cs = [] \<or> hd cs = 10" by (simp add: hd_split_Nil)
      then have "\<not> isspace c"
      proof
        assume "cs = []" then show ?thesis using Cons.prems(2) by simp
      next
        assume h: "hd cs = 10"
        show ?thesis
        proof (cases cs)
          case Nil
          then show ?thesis using Cons.prems(2) by simp
        next
          case (Cons d ds)
          then have "is_punct c" using w h by simp
          then show ?thesis by (rule is_punct_not_space)
        qed
      qed
      with True show ?thesis by simp
    next
      case False
      then show ?thesis using ih by simp
    qed
    show ?thesis using False c1 c2 ih by (simp add: split_Cons del: split.simps)
  qed
qed

lemma break_sentences_lines:
  assumes "l \<in> set (split 10 (break_sentences t))"
  shows "ws_sep (\<lambda>b. False) None l" and "l = [] \<or> \<not> isspace (last l)"
proof -
  let ?N = "break_sentences t"
  let ?P = "\<lambda>l. ws_sep (\<lambda>b. False) None l \<and> (l = [] \<or> \<not> isspace (last l))"
  note s = ws_sep_lines[OF break_sentences_shape, of t]
  have "?P l"
  proof (rule split_all[of ?P 10 ?N])
    show "?P (hd (split 10 ?N))" using s by simp
    show "\<forall>l\<in>set (tl (split 10 ?N)). ?P l" using s by simp
    show "l \<in> set (split 10 ?N)" by (rule assms)
  qed
  then show "ws_sep (\<lambda>b. False) None l" and "l = [] \<or> \<not> isspace (last l)" by simp_all
qed

lemma py_strip_id: "t = [] \<or> (\<not> isspace (hd t) \<and> \<not> isspace (last t)) \<Longrightarrow> py_strip t = t"
proof (cases t)
  case Nil
  then show ?thesis by (simp add: py_strip_def)
next
  case (Cons c cs)
  assume "t = [] \<or> (\<not> isspace (hd t) \<and> \<not> isspace (last t))"
  then have h: "\<not> isspace (hd t)" and l: "\<not> isspace (last t)" using Cons by auto
  have 1: "dropWhile isspace t = t" using h Cons by simp
  have ne: "t \<noteq> []" using Cons by simp
  have "hd (rev t) = last t" using ne by (simp add: hd_rev)
  then have "rev t \<noteq> []" "\<not> isspace (hd (rev t))" using l ne by simp_all
  then have 2: "dropWhile isspace (rev t) = rev t" by (simp add: dropWhile_eq_self_iff)
  show ?thesis by (simp add: py_strip_def 1 2)
qed

lemma ws_sep_no_newline: "ws_sep (\<lambda>b. False) prev l \<Longrightarrow> 10 \<notin> set l"
  by (induction l arbitrary: prev) (auto split: option.splits if_splits)

section \<open>The result of the pipeline, line by line\<close>

lemma split_line0: "sep \<notin> set l \<Longrightarrow> split sep l = [l]"
  by (induction l) auto

lemma split_line: "sep \<notin> set l \<Longrightarrow> split sep (l @ sep # t) = l # split sep t"
  by (induction l) (auto simp: split_Cons simp del: split.simps)

lemma split_join:
  "ls \<noteq> [] \<Longrightarrow> \<forall>l\<in>set ls. sep \<notin> set l \<Longrightarrow> split sep (join [sep] ls) = ls"
proof (induction ls)
  case Nil
  then show ?case by simp
next
  case (Cons l ls)
  show ?case
  proof (cases ls)
    case Nil
    then show ?thesis using Cons.prems by (simp add: split_line0)
  next
    case (Cons m ms)
    then have "split sep (join [sep] ls) = ls" using Cons.IH Cons.prems by simp
    then show ?thesis using Cons Cons.prems by (simp add: split_line)
  qed
qed

lemma join_shape:
  assumes "\<forall>l\<in>set ls. l \<noteq> [] \<and> ws_sep (\<lambda>b. False) None l \<and> \<not> isspace (last l)"
    and "ls \<noteq> []"
  shows "join [10] ls \<noteq> [] \<and> hd (join [10] ls) = hd (hd ls)
     \<and> last (join [10] ls) = last (last ls)
     \<and> ws_sep (\<lambda>b. \<not> isspace b) None (join [10] ls)"
  using assms
proof (induction ls)
  case Nil
  then show ?case by simp
next
  case (Cons l ls)
  have l: "l \<noteq> []" "ws_sep (\<lambda>b. False) None l" "\<not> isspace (last l)" using Cons.prems by auto
  have wl: "ws_sep (\<lambda>b. \<not> isspace b) None l" using l(2) by (rule ws_sep_mono[rotated]) simp
  show ?case
  proof (cases ls)
    case Nil
    then show ?thesis using l wl by simp
  next
    case (Cons m ms)
    let ?J = "join [10] ls"
    have ih: "?J \<noteq> []" "hd ?J = hd (hd ls)" "last ?J = last (last ls)"
      "ws_sep (\<lambda>b. \<not> isspace b) None ?J"
      using Cons.IH Cons.prems Cons by auto
    have m: "m \<noteq> []" "ws_sep (\<lambda>b. False) None m" using Cons.prems Cons by auto
    have "\<not> isspace (hd m)" using m(2) by (rule ws_sep_hd) (use m(1) in auto)
    then have "\<not> isspace (hd ?J)" using ih(2) Cons by simp
    then have w: "ws_sep (\<lambda>b. \<not> isspace b) (Some 10) ?J" using ih(4) ws_sep_prev by blast
    have j: "join [10] (l # ls) = l @ 10 # ?J" using Cons by simp
    have "ws_sep (\<lambda>b. \<not> isspace b) None (l @ 10 # ?J)"
      using wl w l by (simp add: ws_sep_append)
    then show ?thesis unfolding j using l ih Cons by simp
  qed
qed

lemma ws_sep_short_runs:
  assumes "ws_sep q prev t" and q: "\<And>b. q b \<Longrightarrow> \<not> isspace b" and p: "\<And>c. p c \<Longrightarrow> isspace c"
  shows "length (takeWhile p t) \<le> Suc 0"
proof (cases t)
  case Nil
  then show ?thesis by simp
next
  case (Cons c cs)
  show ?thesis
  proof (cases cs)
    case Nil
    then show ?thesis using Cons by simp
  next
    case (Cons d ds)
    have "\<not> (p c \<and> p d)"
    proof
      assume h: "p c \<and> p d"
      then have "isspace c" "isspace d" using p by auto
      moreover have "ws_sep q (Some c) cs"
        using assms(1) unfolding \<open>t = c # cs\<close> by (rule ws_sep_tl)
      then have "if d = 10 then q c else if isspace d then d = 32 \<and> \<not> isspace c else True"
        unfolding Cons by (auto split: if_splits)
      ultimately show False using q[of c] by (auto split: if_splits)
    qed
    then show ?thesis using Cons \<open>t = c # cs\<close> by auto
  qed
qed

lemma ws_sep_no_run:
  assumes "ws_sep q prev t" and q: "\<And>b. q b \<Longrightarrow> \<not> isspace b" and p: "\<And>c. p c \<Longrightarrow> isspace c"
  shows "\<not> has_run p (Suc (Suc n)) t"
  using assms(1)
proof (induction t arbitrary: prev)
  case Nil
  then show ?case by simp
next
  case (Cons c cs)
  have "length (takeWhile p (c # cs)) \<le> Suc 0"
    using Cons.prems q p by (rule ws_sep_short_runs)
  moreover have "\<not> has_run p (Suc (Suc n)) cs" using Cons.prems by (intro Cons.IH[of "Some c"]) simp
  ultimately show ?case by (simp del: takeWhile.simps)
qed

lemma ws_sep_no_double_newline:
  assumes "ws_sep q prev t" and q: "\<And>b. q b \<Longrightarrow> \<not> isspace b"
  shows "\<not> contains [10, 10] t"
  using assms(1)
proof (induction t arbitrary: prev)
  case Nil
  then show ?case by simp
next
  case (Cons c cs)
  have "\<not> startswith [10, 10] (c # cs)"
  proof
    assume "startswith [10, 10] (c # cs)"
    then obtain r where "c # cs = [10, 10] @ r" unfolding startswith_iff by blast
    then have "ws_sep q prev (10 # 10 # r)" using Cons.prems by simp
    then have "q 10" by simp
    then show False using q[of 10] by simp
  qed
  moreover have "\<not> contains [10, 10] cs" using Cons.prems by (intro Cons.IH[of "Some c"]) simp
  ultimately show ?case by simp
qed

lemma kept_line:
  assumes "l \<in> set (filter (keep_line cfg) (split 10 (break_sentences t)))"
  shows "l \<noteq> []" "ws_sep (\<lambda>b. False) None l" "\<not> isspace (last l)" "py_strip l = l"
    "keep_line cfg l" "10 \<notin> set l"
proof -
  have m: "l \<in> set (split 10 (break_sentences t))" and k: "keep_line cfg l" using assms by auto
  show "keep_line cfg l" by (rule k)
  show ne: "l \<noteq> []" using k keep_line_Nil by auto
  show w: "ws_sep (\<lambda>b. False) None l" using m by (rule break_sentences_lines)
  show e: "\<not> isspace (last l)" using break_sentences_lines(2)[OF m] ne by simp
  have "\<not> isspace (hd l)" using w by (rule ws_sep_hd) (use ne in auto)
  then show "py_strip l = l" using e by (intro py_strip_id) simp
  show "10 \<notin> set l" using w by (rule ws_sep_no_newline)
qed


lemma preprocess_text_lines:
  "preprocess_text u cfg x = join [10] (filter (keep_line cfg) (split 10 (body u cfg x)))"
proof -
  let ?ls = "filter (keep_line cfg) (split 10 (body u cfg x))"
  have r: "preprocess_text u cfg x = py_strip (join [10] ?ls)"
    by (simp add: preprocess_text_def Let_def remove_empty_lines_resegmented body_def)
  have "py_strip (join [10] ?ls) = join [10] ?ls"
  proof (cases "?ls = []")
    case True
    then show ?thesis by (simp add: py_strip_def)
  next
    case False
    have g: "\<forall>l\<in>set ?ls. l \<noteq> [] \<and> ws_sep (\<lambda>b. False) None l \<and> \<not> isspace (last l)"
      unfolding body_def using kept_line by blast
    note s = join_shape[OF g False]
    have "hd ?ls \<in> set ?ls" "last ?ls \<in> set ?ls"
      using False by (rule hd_in_set, rule last_in_set)
    then have "\<not> isspace (hd (hd ?ls))" "\<not> isspace (last (last ?ls))"
      using g ws_sep_hd[of "\<lambda>b. False" None] by (blast, blast)
    then show ?thesis using s by (intro py_strip_id) simp
  qed
  with r show ?thesis by simp
qed

lemma preprocess_text_shape:
  "ws_sep (\<lambda>b. \<not> isspace b) None (preprocess_text u cfg x)"
proof -
  let ?ls = "filter (keep_line cfg) (split 10 (body u cfg x))"
  show ?thesis
  proof (cases "?ls = []")
    case True
    then show ?thesis by (simp add: preprocess_text_lines)
  next
    case False
    have g: "\<forall>l\<in>set ?ls. l \<noteq> [] \<and> ws_sep (\<lambda>b. False) None l \<and> \<not> isspace (last l)"
      unfolding body_def using kept_line by blast
    show ?thesis unfolding preprocess_text_lines using join_shape[OF g False] by simp
  qed
qed

lemma preprocess_text_split:
  assumes "l \<in> set (split 10 (preprocess_text u cfg x))" and "l \<noteq> []"
  shows "l \<in> set (filter (keep_line cfg) (split 10 (body u cfg x)))"
proof -
  let ?ls = "filter (keep_line cfg) (split 10 (body u cfg x))"
  show ?thesis
  proof (cases "?ls = []")
    case True
    then show ?thesis using assms by (simp add: preprocess_text_lines)
  next
    case False
    have "\<forall>l\<in>set ?ls. 10 \<notin> set l" unfolding body_def using kept_line(6) by blast
    then have "split 10 (join [10] ?ls) = ?ls" using False by (intro split_join) simp_all
    then show ?thesis using assms(1) by (simp only: preprocess_text_lines)
  qed
qed

lemma sample_run:
  "preprocess_text \<lparr>nfc = (\<lambda>t. t), nd = (\<lambda>c. False), alnum = (\<lambda>c. False)\<rparr>
     \<lparr>preserve_paragraphs = True, min_line_length = 3, verbose = True\<rparr>
     (cp ''Seen. Done.'') = cp ''Seen.'' @ [10] @ cp ''Done.''"
  by (simp add: preprocess_text_def normalize_unicode_def remove_control_characters_def
      sub_class_def is_control_def fix_common_encoding_issues_def replacements_eq str_replace_def
      clean_special_characters_def normalize_whitespace_def is_blank_def
      remove_excessive_newlines_def cp_simps remove_mid_sentence_newlines_def py_strip_def
      isspace_def is_newline_def is_punct_def find_abbrev_def abbreviations_eq is_digit_def
      match_marker_def is_upper_def is_lower_def remove_empty_lines_def keep_line_def Let_def)

section \<open>Invariants of the result\<close>

text \<open>
  C9. The result of the pipeline never has two newlines in a row, whatever the
  configuration: \<open>remove_empty_lines\<close> drops the empty lines and joins the others with
  one newline.
\<close>

theorem preprocess_text_no_blank_line:
  "\<not> contains [10, 10] (preprocess_text u cfg x)"
  using preprocess_text_shape by (rule ws_sep_no_double_newline) simp

text \<open>
  C5. With \<open>preserve_paragraphs\<close> set the result has no run of three newlines, and
  without it no run of two.
\<close>

theorem preprocess_text_newline_runs:
  "\<not> has_run is_newline 3 (preprocess_text u (cfg\<lparr>preserve_paragraphs := True\<rparr>) x)
   \<and> \<not> has_run is_newline 2 (preprocess_text u (cfg\<lparr>preserve_paragraphs := False\<rparr>) x)"
proof -
  have "\<not> has_run is_newline (Suc (Suc n)) (preprocess_text u c x)" for n c
    using preprocess_text_shape by (rule ws_sep_no_run) (simp_all add: is_newline_def)
  from this[of 1] this[of 0] show ?thesis by (simp add: numeral_3_eq_3 numeral_2_eq_2)
qed

text \<open>
  C6. Every non-empty line of the result has, after trimming, at least
  \<open>min_line_length\<close> characters.
\<close>

theorem preprocess_text_line_length:
  "\<forall>l\<in>set (split 10 (preprocess_text u cfg x)).
     l \<noteq> [] \<longrightarrow> min_line_length cfg \<le> int (length (py_strip l))"
proof (intro ballI impI)
  fix l assume "l \<in> set (split 10 (preprocess_text u cfg x))" and "l \<noteq> []"
  then have "l \<in> set (filter (keep_line cfg) (split 10 (body u cfg x)))"
    by (rule preprocess_text_split)
  then have "keep_line cfg l" by simp
  then show "min_line_length cfg \<le> int (length (py_strip l))" by (simp add: keep_line_def)
qed

theorem preprocess_text_line_length_witness:
  "cp ''Seen.'' \<in> set (split 10 (preprocess_text \<lparr>nfc = (\<lambda>t. t), nd = (\<lambda>c. False), alnum = (\<lambda>c. False)\<rparr>
       \<lparr>preserve_paragraphs = True, min_line_length = 3, verbose = True\<rparr> (cp ''Seen. Done.'')))
   \<and> cp ''Seen.'' \<noteq> []
   \<and> min_line_length \<lparr>preserve_paragraphs = True, min_line_length = 3, verbose = True\<rparr>
       \<le> int (length (py_strip (cp ''Seen.'')))"
proof -
  let ?out = "preprocess_text \<lparr>nfc = (\<lambda>t. t), nd = (\<lambda>c. False), alnum = (\<lambda>c. False)\<rparr>
       \<lparr>preserve_paragraphs = True, min_line_length = 3, verbose = True\<rparr> (cp ''Seen. Done.'')"
  have m: "cp ''Seen.'' \<in> set (split 10 ?out)" unfolding sample_run by (simp add: cp_simps)
  have n: "cp ''Seen.'' \<noteq> []" by (simp add: cp_simps)
  from preprocess_text_line_length m n
  have "min_line_length \<lparr>preserve_paragraphs = True, min_line_length = 3, verbose = True\<rparr>
       \<le> int (length (py_strip (cp ''Seen.'')))"
    by blast
  with m n show ?thesis by simp
qed

text \<open>
  C7. No line of the result ends with a space or a tab, and the result has no run of
  three spaces or tabs.
\<close>

theorem preprocess_text_whitespace:
  "(\<forall>l\<in>set (split 10 (preprocess_text u cfg x)). l = [] \<or> \<not> is_blank (last l))
   \<and> \<not> has_run is_blank 3 (preprocess_text u cfg x)"
proof
  show "\<forall>l\<in>set (split 10 (preprocess_text u cfg x)). l = [] \<or> \<not> is_blank (last l)"
  proof
    fix l assume m: "l \<in> set (split 10 (preprocess_text u cfg x))"
    show "l = [] \<or> \<not> is_blank (last l)"
    proof (cases "l = []")
      case False
      with m have "l \<in> set (filter (keep_line cfg) (split 10 (body u cfg x)))"
        by (rule preprocess_text_split)
      then have "\<not> isspace (last l)" unfolding body_def by (rule kept_line(3))
      then show ?thesis using is_blank_space by blast
    qed simp
  qed
  have "\<not> has_run is_blank (Suc (Suc 1)) (preprocess_text u cfg x)"
    using preprocess_text_shape by (rule ws_sep_no_run) (simp_all add: is_blank_space)
  then show "\<not> has_run is_blank 3 (preprocess_text u cfg x)" by (simp add: numeral_3_eq_3)
qed

theorem preprocess_text_whitespace_witness:
  "cp ''Seen.'' \<in> set (split 10 (preprocess_text \<lparr>nfc = (\<lambda>t. t), nd = (\<lambda>c. False), alnum = (\<lambda>c. False)\<rparr>
       \<lparr>preserve_paragraphs = True, min_line_length = 3, verbose = True\<rparr> (cp ''Seen. Done.'')))
   \<and> cp ''Seen.'' \<noteq> [] \<and> \<not> is_blank (last (cp ''Seen.''))
   \<and> \<not> has_run is_blank 3 (preprocess_text \<lparr>nfc = (\<lambda>t. t), nd = (\<lambda>c. False), alnum = (\<lambda>c. False)\<rparr>
       \<lparr>preserve_paragraphs = True, min_line_length = 3, verbose = True\<rparr> (cp ''Seen. Done.''))"
proof -
  let ?out = "preprocess_text \<lparr>nfc = (\<lambda>t. t), nd = (\<lambda>c. False), alnum = (\<lambda>c. False)\<rparr>
       \<lparr>preserve_paragraphs = True, min_line_length = 3, verbose = True\<rparr> (cp ''Seen. Done.'')"
  have m: "cp ''Seen.'' \<in> set (split 10 ?out)" unfolding sample_run by (simp add: cp_simps)
  have n: "cp ''Seen.'' \<noteq> []" by (simp add: cp_simps)
  note w = preprocess_text_whitespace
    [of "\<lparr>nfc = (\<lambda>t. t), nd = (\<lambda>c. False), alnum = (\<lambda>c. False)\<rparr>"
        "\<lparr>preserve_paragraphs = True, min_line_length = 3, verbose = True\<rparr>" "cp ''Seen. Done.''"]
  from w m n have "\<not> is_blank (last (cp ''Seen.''))" by blast
  with w m n show ?thesis by simp
qed

section \<open>Running the pipeline on its own result\<close>

lemma nps_prev: "(\<And>b. prev' = Some b \<Longrightarrow> \<not> is_punct b) \<Longrightarrow> nps prev t \<Longrightarrow> nps prev' t"
  by (cases t) (auto split: option.splits)

lemma nps_append:
  "nps prev (a @ t) = (nps prev a \<and> nps (if a = [] then prev else Some (last a)) t)"
  by (induction a arbitrary: prev) auto

lemma sub_sentence_nps:
  "(\<And>b. prev = Some b \<Longrightarrow> is_punct b \<Longrightarrow> t = [] \<or> \<not> isspace (hd t)) \<Longrightarrow> nps prev (sub_sentence t)"
proof (induction t arbitrary: prev rule: sub_sentence.induct)
  case 1
  then show ?case by simp
next
  case (2 c cs)
  show ?case
  proof (cases "is_punct c \<and> (case cs of [] \<Rightarrow> False | d # ds \<Rightarrow> isspace d)")
    case True
    have "nps (Some 10) (sub_sentence (dropWhile isspace cs))"
      using True by (intro "2.IH"(1)) (auto simp: is_punct_def)
    moreover have "c \<noteq> 32" using True by (auto simp: is_punct_def)
    ultimately show ?thesis using True by simp
  next
    case False
    have "nps (Some c) (sub_sentence cs)"
      using False by (intro "2.IH"(2)) (auto split: list.splits)
    moreover have "\<not> (c = 32 \<and> (case prev of None \<Rightarrow> False | Some b \<Rightarrow> is_punct b))"
      using "2.prems" by (auto split: option.splits)
    ultimately show ?thesis using False by auto
  qed
qed

lemma break_sentences_nps: "nps None (break_sentences t)"
  unfolding break_sentences_def by (rule sub_sentence_nps) simp

lemma nps_lines:
  "nps prev t \<Longrightarrow> nps prev (hd (split 10 t)) \<and> (\<forall>l\<in>set (tl (split 10 t)). nps None l)"
proof (induction t arbitrary: prev)
  case Nil
  then show ?case by simp
next
  case (Cons c cs)
  have n: "nps (Some c) cs" using Cons.prems by simp
  note ih = Cons.IH[OF n]
  show ?case
  proof (cases "c = 10")
    case True
    have "nps None (hd (split 10 cs))"
      using ih True by (intro nps_prev[of None "Some c"]) simp_all
    then have "\<forall>l\<in>set (split 10 cs). nps None l"
      using ih split_all[of "nps None" 10 cs] by blast
    then show ?thesis using True by (simp add: split_Cons del: split.simps)
  next
    case False
    then show ?thesis using ih Cons.prems by (simp add: split_Cons del: split.simps)
  qed
qed

lemma break_sentences_lines_nps:
  "l \<in> set (split 10 (break_sentences t)) \<Longrightarrow> nps None l"
  using nps_lines[OF break_sentences_nps, of t] split_all[of "nps None" 10 "break_sentences t" l]
  by blast

lemma join_nps:
  "\<forall>l\<in>set ls. nps None l \<Longrightarrow> nps None (join [10] ls)"
proof (induction ls)
  case Nil
  then show ?case by simp
next
  case (Cons l ls)
  show ?case
  proof (cases ls)
    case Nil
    then show ?thesis using Cons.prems by simp
  next
    case (Cons m ms)
    have "nps None (join [10] ls)" using Cons.IH Cons.prems by simp
    then have "nps (Some 10) (join [10] ls)" by (rule nps_prev[rotated]) (simp add: is_punct_def)
    then show ?thesis using Cons Cons.prems by (simp add: nps_append)
  qed
qed

text \<open>Lines that are followed by a newline.\<close>

lemma ws_sep_line_ends:
  "ws_sep is_punct prev t \<Longrightarrow>
     (tl (split 10 t) \<noteq> [] \<longrightarrow>
        (if hd (split 10 t) = [] then (case prev of None \<Rightarrow> False | Some b \<Rightarrow> is_punct b)
         else is_punct (last (hd (split 10 t)))))
     \<and> (\<forall>l\<in>set (butlast (tl (split 10 t))). l \<noteq> [] \<and> is_punct (last l))"
proof (induction t arbitrary: prev)
  case Nil
  then show ?case by simp
next
  case (Cons c cs)
  have w: "ws_sep is_punct (Some c) cs" using Cons.prems by simp
  note ih = Cons.IH[OF w]
  let ?h = "hd (split 10 cs)" and ?r = "tl (split 10 cs)"
  show ?case
  proof (cases "c = 10")
    case True
    have p: "case prev of None \<Rightarrow> False | Some b \<Rightarrow> is_punct b" using Cons.prems True by simp
    have b: "butlast (split 10 cs) = (if ?r = [] then [] else ?h # butlast ?r)"
      by (metis butlast.simps(2) split_hd_tl)
    have "\<forall>l\<in>set (butlast (split 10 cs)). l \<noteq> [] \<and> is_punct (last l)"
    proof (cases "?r = []")
      case True
      then show ?thesis using b by simp
    next
      case False
      then have "?h \<noteq> [] \<and> is_punct (last ?h)"
        using ih True by (auto simp: is_punct_def split: if_splits)
      then show ?thesis using b False ih by simp
    qed
    then show ?thesis using True p by (simp add: split_Cons del: split.simps)
  next
    case False
    have "?r \<noteq> [] \<longrightarrow> is_punct (last (c # ?h))"
      using ih by (auto split: if_splits)
    then show ?thesis using False ih by (simp add: split_Cons del: split.simps)
  qed
qed

lemma ws_sep_butlast_lines:
  assumes "ws_sep is_punct None t" and "l \<in> set (butlast (split 10 t))"
  shows "l \<noteq> [] \<and> is_punct (last l)"
proof -
  let ?h = "hd (split 10 t)" and ?r = "tl (split 10 t)"
  note e = ws_sep_line_ends[OF assms(1)]
  have b: "butlast (split 10 t) = (if ?r = [] then [] else ?h # butlast ?r)"
    by (metis butlast.simps(2) split_hd_tl)
  show ?thesis
  proof (cases "?r = []")
    case True
    then show ?thesis using assms(2) b by simp
  next
    case False
    then have "?h \<noteq> [] \<and> is_punct (last ?h)" using e by (auto split: if_splits)
    then show ?thesis using assms(2) b False e by auto
  qed
qed

lemma butlast_filter: "set (butlast (filter K xs)) \<subseteq> set (butlast xs)"
proof (induction xs)
  case Nil
  then show ?case by simp
next
  case (Cons x xs)
  show ?case
  proof (cases "filter K xs = []")
    case True
    then show ?thesis by simp
  next
    case False
    then have "xs \<noteq> []" by auto
    then show ?thesis using Cons False by auto
  qed
qed

lemma join_ws_sep:
  assumes "\<forall>l\<in>set ls. l \<noteq> [] \<and> ws_sep (\<lambda>b. False) None l \<and> \<not> isspace (last l)"
    and "\<forall>l\<in>set (butlast ls). q (last l)"
  shows "ws_sep q None (join [10] ls)"
  using assms
proof (induction ls)
  case Nil
  then show ?case by simp
next
  case (Cons l ls)
  have l: "l \<noteq> []" "ws_sep (\<lambda>b. False) None l" using Cons.prems by auto
  have wl: "ws_sep q None l" using l(2) by (rule ws_sep_mono[rotated]) simp
  show ?case
  proof (cases ls)
    case Nil
    then show ?thesis using wl by simp
  next
    case (Cons m ms)
    let ?J = "join [10] ls"
    have g: "\<forall>l\<in>set ls. l \<noteq> [] \<and> ws_sep (\<lambda>b. False) None l \<and> \<not> isspace (last l)"
      using Cons.prems by simp
    have ne: "ls \<noteq> []" using Cons by simp
    have b: "butlast (l # ls) = l # butlast ls" using ne by simp
    have ql: "q (last l)" and qr: "\<forall>l\<in>set (butlast ls). q (last l)"
      using Cons.prems(2) unfolding b by simp_all
    have ih: "ws_sep q None ?J" using g qr by (rule Cons.IH)
    have m: "m \<noteq> []" "ws_sep (\<lambda>b. False) None m" using g Cons by auto
    have "\<not> isspace (hd m)" using m(2) by (rule ws_sep_hd) (use m(1) in auto)
    then have "\<not> isspace (hd ?J)" using join_shape[OF g ne] Cons by simp
    then have w: "ws_sep q (Some 10) ?J" using ih ws_sep_prev by blast
    have j: "join [10] (l # ls) = l @ 10 # ?J" using Cons by simp
    show ?thesis unfolding j using wl w l ql by (simp add: ws_sep_append)
  qed
qed

lemma has_run_tl: "\<not> has_run p n (c # cs) \<Longrightarrow> \<not> has_run p n cs"
  by simp

lemma sub_runs_no_run: "\<not> has_run p n t \<Longrightarrow> sub_runs p n r t = t"
  by (induction t) auto

lemma no_run_2: "\<not> has_run p (Suc (Suc 0)) (c # cs) \<Longrightarrow> p c \<Longrightarrow> dropWhile p cs = cs"
  by (cases cs) (auto split: if_splits)

lemma sub_runs_single:
  "\<not> has_run p (Suc (Suc 0)) t \<Longrightarrow> \<forall>c\<in>set t. p c \<longrightarrow> c = x \<Longrightarrow> sub_runs p (Suc 0) [x] t = t"
proof (induction t)
  case Nil
  then show ?case by simp
next
  case (Cons c cs)
  have ih: "sub_runs p (Suc 0) [x] cs = cs" using Cons by simp
  show ?case
  proof (cases "p c")
    case True
    then have "dropWhile p cs = cs" using Cons.prems(1) no_run_2 by blast
    moreover have "c = x" using True Cons.prems(2) by simp
    ultimately show ?thesis using True ih by simp
  next
    case False
    then show ?thesis using ih by simp
  qed
qed

lemma sub_runs_map:
  "\<not> has_run p (Suc (Suc 0)) t \<Longrightarrow> sub_runs p (Suc 0) [x] t = map (\<lambda>c. if p c then x else c) t"
proof (induction t)
  case Nil
  then show ?case by simp
next
  case (Cons c cs)
  have ih: "sub_runs p (Suc 0) [x] cs = map (\<lambda>c. if p c then x else c) cs" using Cons by simp
  show ?case
  proof (cases "p c")
    case True
    then have "dropWhile p cs = cs" using Cons.prems(1) no_run_2 by blast
    then show ?thesis using True ih by simp
  next
    case False
    then show ?thesis using ih by simp
  qed
qed

lemma ws_sep_chars: "ws_sep q prev t \<Longrightarrow> c \<in> set t \<Longrightarrow> isspace c \<Longrightarrow> c = 32 \<or> c = 10"
  by (induction t arbitrary: prev) (auto split: if_splits)

lemma sub_crlf_id: "13 \<notin> set t \<Longrightarrow> sub_crlf t = t"
  by (induction t rule: sub_crlf.induct) auto

lemma sub_trailing_id:
  assumes "ws_sep q prev t" and q: "\<And>b. q b \<Longrightarrow> \<not> isspace b" and "t = [] \<or> \<not> isspace (last t)"
  shows "sub_trailing t = t"
  using assms(1,3)
proof (induction t arbitrary: prev)
  case Nil
  then show ?case by simp
next
  case (Cons c cs)
  have w: "ws_sep q (Some c) cs" using Cons.prems(1) by simp
  have e: "cs = [] \<or> \<not> isspace (last cs)" using Cons.prems(2) by (cases cs) auto
  have ih: "sub_trailing cs = cs" using w e by (rule Cons.IH)
  have "\<not> (is_blank c \<and> (case dropWhile is_blank cs of [] \<Rightarrow> True | d # ds \<Rightarrow> d = 10))"
  proof
    assume h: "is_blank c \<and> (case dropWhile is_blank cs of [] \<Rightarrow> True | d # ds \<Rightarrow> d = 10)"
    then have sc: "isspace c" using is_blank_space by blast
    have "\<not> has_run is_blank (Suc (Suc 0)) (c # cs)"
    proof (rule ws_sep_no_run[OF Cons.prems(1)])
      fix b assume "q b" then show "\<not> isspace b" by (rule q)
    next
      fix c assume "is_blank c" then show "isspace c" by (rule is_blank_space)
    qed
    then have d: "dropWhile is_blank cs = cs" using h no_run_2 by blast
    show False
    proof (cases cs)
      case Nil
      then show ?thesis using Cons.prems(2) sc by simp
    next
      case (Cons d ds)
      then have "d = 10" using h unfolding d by simp
      then have "q c" using w Cons by simp
      then show ?thesis using q sc by blast
    qed
  qed
  then show ?case using ih by auto
qed

lemma ws_sep_unbreak:
  assumes "ws_sep q prev t" and q: "\<And>b. q b \<Longrightarrow> \<not> isspace b"
  shows "ws_sep (\<lambda>b. False) prev (map (\<lambda>c. if is_newline c then 32 else c) t)"
  using assms(1)
proof (induction t arbitrary: prev)
  case Nil
  then show ?case by simp
next
  case (Cons c cs)
  have "ws_sep (\<lambda>b. False) (Some c) (map (\<lambda>c. if is_newline c then 32 else c) cs)"
    using Cons.prems by (intro Cons.IH) simp
  moreover have "ws_sep (\<lambda>b. False) (Some 32) s" if "ws_sep (\<lambda>b. False) (Some 10) s" for s
    using that by (cases s) (auto split: if_splits)
  ultimately show ?case using Cons.prems q
    by (auto simp: is_newline_def split: option.splits if_splits)
qed

lemma sub_sentence_unbreak:
  "ws_sep is_punct prev t \<Longrightarrow> nps prev t \<Longrightarrow> t = [] \<or> hd t \<noteq> 10
     \<Longrightarrow> sub_sentence (map (\<lambda>c. if is_newline c then 32 else c) t) = t"
proof (induction "length t" arbitrary: t prev rule: less_induct)
  case less
  let ?f = "\<lambda>c. if is_newline c then 32 else (c::nat)"
  show ?case
  proof (cases t)
    case Nil
    then show ?thesis by simp
  next
    case (Cons c cs)
    have c10: "c \<noteq> 10" using less.prems(3) Cons by simp
    then have fc: "?f c = c" by (simp add: is_newline_def)
    have w: "ws_sep is_punct (Some c) cs"
      using less.prems(1) unfolding Cons by (rule ws_sep_tl)
    have n: "nps (Some c) cs"
      using less.prems(2) unfolding Cons by simp
    show ?thesis
    proof (cases cs)
      case Nil
      then show ?thesis using Cons c10 by (simp add: is_newline_def)
    next
      case cs: (Cons d ds)
      have wd: "ws_sep is_punct (Some d) ds"
        using w unfolding cs by (rule ws_sep_tl)
      have nd: "nps (Some d) ds"
        using n unfolding cs by simp
      show ?thesis
      proof (cases "is_punct c \<and> isspace (?f d)")
        case True
        then have "isspace d" by (auto simp: is_newline_def split: if_splits)
        then have "d = 32 \<or> d = 10" using w cs by (auto split: if_splits)
        moreover have "d \<noteq> 32" using n cs True by simp
        ultimately have d: "d = 10" by simp
        have hd: "ds = [] \<or> \<not> isspace (hd ds)"
          using wd d by (cases ds) (auto split: if_splits dest: is_punct_not_space)
        then have hd10: "ds = [] \<or> hd ds \<noteq> 10" by auto
        have "map ?f ds = [] \<or> \<not> isspace (hd (map ?f ds))"
          using hd by (cases ds) (auto simp: is_newline_def)
        then have dw: "dropWhile isspace (map ?f ds) = map ?f ds"
          by (auto simp: dropWhile_eq_self_iff)
        have "length ds < length t" using Cons cs by simp
        then have ih: "sub_sentence (map ?f ds) = ds" using wd nd hd10 by (rule less.hyps)
        have pc: "is_punct c" using True by simp
        have "sub_sentence (c # 32 # map ?f ds)
            = c # 10 # sub_sentence (dropWhile isspace (map ?f ds))"
          using pc by simp
        moreover have "map ?f t = c # 32 # map ?f ds"
          unfolding Cons cs d using c10 by (simp add: is_newline_def)
        ultimately have "sub_sentence (map ?f t)
            = c # 10 # sub_sentence (dropWhile isspace (map ?f ds))"
          by simp
        then show ?thesis using dw ih Cons cs d by simp
      next
        case False
        have "d \<noteq> 10"
        proof
          assume "d = 10"
          then have "is_punct c" using w cs by simp
          then show False using False \<open>d = 10\<close> by (simp add: is_newline_def)
        qed
        then have "cs = [] \<or> hd cs \<noteq> 10" using cs by simp
        moreover have "length cs < length t" using Cons by simp
        ultimately have ih: "sub_sentence (map ?f cs) = cs"
          using w n less.hyps[of cs "Some c"] by simp
        have fd: "?f d = d" using \<open>d \<noteq> 10\<close> by (simp add: is_newline_def)
        have "\<not> (is_punct c \<and> isspace d)" using False fd by simp
        then have "sub_sentence (c # d # map ?f ds) = c # sub_sentence (d # map ?f ds)"
          by auto
        moreover have "map ?f t = c # d # map ?f ds" "map ?f cs = d # map ?f ds"
          unfolding Cons cs using c10 \<open>d \<noteq> 10\<close> by (simp_all add: is_newline_def)
        ultimately have "sub_sentence (map ?f t) = c # sub_sentence (map ?f cs)"
          by simp
        then show ?thesis using ih Cons by simp
      qed
    qed
  qed
qed

lemma preprocess_text_stages:
  "preprocess_text u cfg x = line_stages u cfg (char_stages u x)"
  by (simp add: preprocess_text_def line_stages_def char_stages_def Let_def)

lemma unbreak_id: "\<not> isspace c \<Longrightarrow> (if is_newline c then 32 else c) = c"
  by (auto simp: is_newline_def)

lemma line_stages_fixed:
  "line_stages u cfg (preprocess_text u cfg x) = preprocess_text u cfg x"
proof -
  let ?ls = "filter (keep_line cfg) (split 10 (body u cfg x))"
  let ?J = "join [10] ?ls"
  let ?f = "\<lambda>c. if is_newline c then 32 else (c::nat)"
  have J: "preprocess_text u cfg x = ?J" by (rule preprocess_text_lines)
  show ?thesis
  proof (cases "?ls = []")
    case True
    then have "?J = []" by simp
    moreover have "line_stages u cfg [] = []"
      by (simp add: line_stages_def normalize_whitespace_def remove_excessive_newlines_def
          remove_mid_sentence_newlines_def py_strip_def remove_empty_lines_def keep_line_def)
    ultimately show ?thesis unfolding J by simp
  next
    case False
    have g: "\<forall>l\<in>set ?ls. l \<noteq> [] \<and> ws_sep (\<lambda>b. False) None l \<and> \<not> isspace (last l)"
      unfolding body_def using kept_line by blast
    have "\<forall>l\<in>set (butlast (split 10 (body u cfg x))). l \<noteq> [] \<and> is_punct (last l)"
      unfolding body_def using ws_sep_butlast_lines[OF break_sentences_shape(1)] by blast
    then have e: "\<forall>l\<in>set (butlast ?ls). is_punct (last l)"
      using butlast_filter[of "keep_line cfg" "split 10 (body u cfg x)"] by blast
    have wJ: "ws_sep is_punct None ?J" using g e by (rule join_ws_sep)
    have "\<forall>l\<in>set ?ls. nps None l"
      unfolding body_def using break_sentences_lines_nps by auto
    then have nJ: "nps None ?J" by (rule join_nps)
    note s = join_shape[OF g False]
    have "hd ?ls \<in> set ?ls" "last ?ls \<in> set ?ls"
      using False by (rule hd_in_set, rule last_in_set)
    then have "\<not> isspace (hd (hd ?ls))" "\<not> isspace (last (last ?ls))"
      using g ws_sep_hd[of "\<lambda>b. False" None] by (blast, blast)
    then have ends: "?J \<noteq> []" "\<not> isspace (hd ?J)" "\<not> isspace (last ?J)" using s by simp_all
    have lines: "split 10 ?J = ?ls"
    proof (rule split_join[OF False])
      show "\<forall>l\<in>set ?ls. 10 \<notin> set l" unfolding body_def using kept_line(6) by blast
    qed
    have nr: "\<not> has_run p (Suc (Suc n)) ?J" if "\<And>c. p c \<Longrightarrow> isspace c" for p n
      using wJ by (rule ws_sep_no_run) (use that in \<open>auto dest: is_punct_not_space\<close>)
    have ch: "c = 32 \<or> c = 10" if "c \<in> set ?J" "isspace c" for c
      using wJ that by (rule ws_sep_chars)
    have 1: "sub_runs is_blank (Suc 0) [32] ?J = ?J"
    proof (rule sub_runs_single)
      show "\<not> has_run is_blank (Suc (Suc 0)) ?J" by (rule nr) (rule is_blank_space)
      show "\<forall>c\<in>set ?J. is_blank c \<longrightarrow> c = 32"
      proof (intro ballI impI)
        fix c assume c: "c \<in> set ?J" "is_blank c"
        then have "c = 32 \<or> c = 10" using ch is_blank_space by blast
        then show "c = 32" using c(2) by (auto simp: is_blank_def)
      qed
    qed
    have "13 \<notin> set ?J" using ch[of 13] by (auto simp: isspace_def)
    then have 2: "sub_crlf ?J = ?J" by (rule sub_crlf_id)
    have 3: "sub_trailing ?J = ?J"
      using wJ by (rule sub_trailing_id) (use ends in \<open>auto dest: is_punct_not_space\<close>)
    have nw: "normalize_whitespace ?J = ?J" by (simp add: normalize_whitespace_def 1 2 3)
    have nl: "\<not> has_run is_newline (Suc (Suc n)) ?J" for n
      by (rule nr) (simp add: is_newline_def)
    have rx: "remove_excessive_newlines cfg ?J = ?J"
      using nl[of 1] nl[of 0]
      by (simp add: remove_excessive_newlines_def sub_runs_no_run numeral_3_eq_3 numeral_2_eq_2)
    have 4: "sub_runs is_newline (Suc 0) [32] ?J = map ?f ?J"
      using nl[of 0] by (rule sub_runs_map)
    have wf: "ws_sep (\<lambda>b. False) None (map ?f ?J)"
      using wJ by (rule ws_sep_unbreak) (rule is_punct_not_space)
    have 5: "sub_runs isspace (Suc 0) [32] (map ?f ?J) = map ?f ?J"
    proof (rule sub_runs_single)
      show "\<not> has_run isspace (Suc (Suc 0)) (map ?f ?J)"
        using wf by (rule ws_sep_no_run) simp_all
      show "\<forall>c\<in>set (map ?f ?J). isspace c \<longrightarrow> c = 32"
        using ws_sep_chars[OF wf] ws_sep_no_newline[OF wf] by blast
    qed
    have "hd (map ?f ?J) = hd ?J" "last (map ?f ?J) = last ?J"
      using ends by (simp_all add: hd_map last_map unbreak_id)
    then have 6: "py_strip (map ?f ?J) = map ?f ?J" using ends by (intro py_strip_id) simp
    have "hd ?J \<noteq> 10" using ends(2) by auto
    then have 7: "sub_sentence (map ?f ?J) = ?J"
      using wJ nJ by (intro sub_sentence_unbreak[of None]) simp_all
    have bs: "break_sentences ?J = ?J" by (simp add: break_sentences_def 4 5 6 7)
    have "remove_empty_lines cfg (remove_mid_sentence_newlines u ?J) = ?J"
      by (simp add: remove_empty_lines_resegmented bs lines)
    moreover have "py_strip ?J = ?J" using ends by (intro py_strip_id) simp
    ultimately show ?thesis unfolding J by (simp add: line_stages_def nw rx)
  qed
qed

text \<open>
  The characters of the result: the stages add only characters that the character stages
  leave alone.
\<close>

lemma set_sub_class: "set (sub_class p r t) \<subseteq> {c \<in> set t. \<not> p c} \<union> set r"
  by (induction t) (auto simp: sub_class_def)

lemma sub_class_id: "\<forall>c\<in>set t. p c \<longrightarrow> r = [c] \<Longrightarrow> sub_class p r t = t"
  by (induction t) (auto simp: sub_class_def)

lemma set_replace_scan: "set (replace_scan old new k t) \<subseteq> set t \<union> set new"
  by (induction old new k t rule: replace_scan.induct) auto

lemma set_str_replace: "set (str_replace old new t) \<subseteq> set t \<union> set new"
  using set_replace_scan[of old new 0 t] by (auto simp: str_replace_def)

lemma replace_scan_absent: "a \<notin> set t \<Longrightarrow> replace_scan (a # old) new 0 t = t"
  by (induction t) auto

lemma str_replace_absent: "a \<notin> set t \<Longrightarrow> str_replace (a # old) new t = t"
  by (simp add: str_replace_def replace_scan_absent)

lemma replace_scan_single:
  "replace_scan [a] new 0 t = concat (map (\<lambda>c. if c = a then new else [c]) t)"
  by (induction t) auto

lemma set_sub_runs: "set (sub_runs p n r t) \<subseteq> set t \<union> set r"
proof (induction p n r t rule: sub_runs.induct)
  case (1 p n r)
  then show ?case by simp
next
  case (2 p n r c cs)
  show ?case
  proof (cases "p c \<and> n \<le> length (takeWhile p (c # cs))")
    case True
    then have "sub_runs p n r (c # cs) = r @ sub_runs p n r (dropWhile p cs)" by auto
    moreover have "set (sub_runs p n r (dropWhile p cs)) \<subseteq> set (dropWhile p cs) \<union> set r"
      using True by (rule "2.IH"(1))
    moreover have "set (dropWhile p cs) \<subseteq> set cs" by (auto dest: set_dropWhileD)
    ultimately show ?thesis by auto
  next
    case False
    then have "sub_runs p n r (c # cs) = c # sub_runs p n r cs" by auto
    moreover have "set (sub_runs p n r cs) \<subseteq> set cs \<union> set r" using False by (rule "2.IH"(2))
    ultimately show ?thesis by auto
  qed
qed

lemma set_sub_crlf: "set (sub_crlf t) \<subseteq> set t \<union> {10}"
  by (induction t rule: sub_crlf.induct) auto

lemma set_sub_trailing: "set (sub_trailing t) \<subseteq> set t"
proof (induction t rule: sub_trailing.induct)
  case 1
  then show ?case by simp
next
  case (2 c cs)
  let ?m = "is_blank c \<and> (case dropWhile is_blank cs of [] \<Rightarrow> True | d # ds \<Rightarrow> d = 10)"
  show ?case
  proof (cases ?m)
    case True
    then have "sub_trailing (c # cs) = sub_trailing (dropWhile is_blank cs)" by auto
    moreover have "set (sub_trailing (dropWhile is_blank cs)) \<subseteq> set (dropWhile is_blank cs)"
      using True by (rule "2.IH"(1))
    moreover have "set (dropWhile is_blank cs) \<subseteq> set cs" by (auto dest: set_dropWhileD)
    ultimately show ?thesis by auto
  next
    case False
    then have "sub_trailing (c # cs) = c # sub_trailing cs" by auto
    moreover have "set (sub_trailing cs) \<subseteq> set cs" using False by (rule "2.IH"(2))
    ultimately show ?thesis by auto
  qed
qed

lemma set_sub_sentence: "set (sub_sentence t) \<subseteq> set t \<union> {10}"
proof (induction t rule: sub_sentence.induct)
  case 1
  then show ?case by simp
next
  case (2 c cs)
  let ?m = "is_punct c \<and> (case cs of [] \<Rightarrow> False | d # ds \<Rightarrow> isspace d)"
  show ?case
  proof (cases ?m)
    case True
    then have "sub_sentence (c # cs) = c # 10 # sub_sentence (dropWhile isspace cs)" by auto
    moreover have "set (sub_sentence (dropWhile isspace cs)) \<subseteq> set (dropWhile isspace cs) \<union> {10}"
      using True by (rule "2.IH"(1))
    moreover have "set (dropWhile isspace cs) \<subseteq> set cs" by (auto dest: set_dropWhileD)
    ultimately show ?thesis by auto
  next
    case False
    then have "sub_sentence (c # cs) = c # sub_sentence cs" by auto
    moreover have "set (sub_sentence cs) \<subseteq> set cs \<union> {10}" using False by (rule "2.IH"(2))
    ultimately show ?thesis by auto
  qed
qed

lemma set_py_strip: "set (py_strip t) \<subseteq> set t"
  unfolding py_strip_def by (auto dest!: set_dropWhileD)

lemma set_split: "l \<in> set (split sep t) \<Longrightarrow> set l \<subseteq> set t"
proof (induction t arbitrary: l)
  case Nil
  then show ?case by simp
next
  case (Cons c cs)
  have "hd (split sep cs) \<in> set (split sep cs)" by (rule hd_in_set) simp
  then have h: "set (hd (split sep cs)) \<subseteq> set cs" by (rule Cons.IH)
  have r: "set m \<subseteq> set cs" if "m \<in> set (tl (split sep cs))" for m
  proof (rule Cons.IH)
    show "m \<in> set (split sep cs)" using that by (metis list.set_sel(2) split_ne)
  qed
  show ?case
  proof (cases "c = sep")
    case True
    then have "l = [] \<or> l \<in> set (split sep cs)"
      using Cons.prems by (simp add: split_Cons del: split.simps)
    then show ?thesis using Cons.IH by auto
  next
    case False
    then have "l = c # hd (split sep cs) \<or> l \<in> set (tl (split sep cs))"
      using Cons.prems by (simp add: split_Cons del: split.simps)
    then show ?thesis
    proof
      assume "l = c # hd (split sep cs)"
      then have "set l = insert c (set (hd (split sep cs)))" by simp
      then show ?thesis using h by auto
    next
      assume "l \<in> set (tl (split sep cs))"
      then have "set l \<subseteq> set cs" by (rule r)
      then show ?thesis by auto
    qed
  qed
qed

lemma set_join: "set (join sep ls) \<subseteq> set sep \<union> \<Union> (set ` set ls)"
  by (induction sep ls rule: join.induct) auto

lemma set_remove_control_characters:
  "c \<in> set (remove_control_characters t) \<Longrightarrow> \<not> is_control c"
  using set_sub_class[of is_control "[]" t] by (auto simp: remove_control_characters_def)

lemma set_foldl_replace:
  "set (foldl (\<lambda>t (old, new). str_replace old new t) t rs) \<subseteq> set t \<union> \<Union> (set ` snd ` set rs)"
proof (induction rs arbitrary: t)
  case Nil
  then show ?case by simp
next
  case (Cons r rs)
  obtain old new where r: "r = (old, new)" by (cases r)
  have "set (foldl (\<lambda>t (old, new). str_replace old new t) (str_replace old new t) rs)
      \<subseteq> set (str_replace old new t) \<union> \<Union> (set ` snd ` set rs)"
    by (rule Cons.IH)
  then show ?case using set_str_replace[of old new t] unfolding r by auto
qed

lemma set_fix_common_encoding_issues:
  "set (fix_common_encoding_issues t) \<subseteq> set t \<union> {39, 34, 8211, 46}"
  using set_foldl_replace[of t replacements]
  by (auto simp: fix_common_encoding_issues_def replacements_eq)

lemma str_replace_single: "str_replace [a] new t = sub_class (\<lambda>c. c = a) new t"
  by (simp add: str_replace_def replace_scan_single sub_class_def)

lemma set_clean_special_characters:
  "set (clean_special_characters t) \<subseteq> {c \<in> set t. \<not> typographic c} \<union> {34, 39, 45, 46}"
proof -
  let ?t1 = "sub_class (\<lambda>c. c = 0x22 \<or> c = 0x22 \<or> c = 0x22) [0x22] t"
  let ?t2 = "sub_class (\<lambda>c. c = 0x27 \<or> c = 0x27 \<or> c = 0x27) [0x27] ?t1"
  let ?t3 = "sub_class (\<lambda>c. c = 0x2013 \<or> c = 0x2014) [45] ?t2"
  let ?t4 = "sub_class (\<lambda>c. c = 0x2026) [46, 46, 46] ?t3"
  have e: "clean_special_characters t = ?t4"
    by (simp add: clean_special_characters_def Let_def str_replace_single)
  have 1: "set ?t1 \<subseteq> set t \<union> {34}"
    using set_sub_class[of "\<lambda>c. c = 0x22 \<or> c = 0x22 \<or> c = 0x22" "[0x22]" t] by auto
  have 2: "set ?t2 \<subseteq> set ?t1 \<union> {39}"
    using set_sub_class[of "\<lambda>c. c = 0x27 \<or> c = 0x27 \<or> c = 0x27" "[0x27]" ?t1] by auto
  have 3: "set ?t3 \<subseteq> {c \<in> set ?t2. c \<noteq> 0x2013 \<and> c \<noteq> 0x2014} \<union> {45}"
    using set_sub_class[of "\<lambda>c. c = 0x2013 \<or> c = 0x2014" "[45]" ?t2] by auto
  have 4: "set ?t4 \<subseteq> {c \<in> set ?t3. c \<noteq> 0x2026} \<union> {46}"
    using set_sub_class[of "\<lambda>c. c = 0x2026" "[46, 46, 46]" ?t3] by auto
  show ?thesis
  proof
    fix c assume "c \<in> set (clean_special_characters t)"
    then have c4: "c \<in> set ?t4" unfolding e .
    then have "c = 46 \<or> (c \<in> set ?t3 \<and> c \<noteq> 0x2026)" using 4 by auto
    then have "c = 46 \<or> c = 45 \<or> (c \<in> set ?t2 \<and> \<not> typographic c)"
      using 3 by (auto simp: typographic_def)
    then have "c = 46 \<or> c = 45 \<or> c = 39 \<or> (c \<in> set ?t1 \<and> \<not> typographic c)"
      using 2 by auto
    then have "c = 46 \<or> c = 45 \<or> c = 39 \<or> c = 34 \<or> (c \<in> set t \<and> \<not> typographic c)"
      using 1 by auto
    then show "c \<in> {c \<in> set t. \<not> typographic c} \<union> {34, 39, 45, 46}" by auto
  qed
qed

lemma char_stages_chars:
  assumes "c \<in> set (char_stages u x)"
  shows "\<not> is_control c \<and> \<not> typographic c"
proof -
  let ?t2 = "remove_control_characters (normalize_unicode u x)"
  let ?t3 = "fix_common_encoding_issues ?t2"
  have "c \<in> {c \<in> set ?t3. \<not> typographic c} \<union> {34, 39, 45, 46}"
    using assms set_clean_special_characters[of ?t3] unfolding char_stages_def by blast
  moreover have "\<not> is_control d" if "d \<in> set ?t3" for d
  proof -
    have "d \<in> set ?t2 \<union> {39, 34, 8211, 46}"
      using that set_fix_common_encoding_issues[of ?t2] by blast
    then show ?thesis using set_remove_control_characters[of d] by (auto simp: is_control_def)
  qed
  ultimately show ?thesis by (auto simp: is_control_def typographic_def)
qed

lemma set_normalize_whitespace: "set (normalize_whitespace t) \<subseteq> set t \<union> {32, 10}"
proof -
  let ?t1 = "sub_runs is_blank 1 [32] t"
  have "set (normalize_whitespace t) \<subseteq> set (sub_crlf ?t1)"
    using set_sub_trailing[of "sub_crlf ?t1"] by (simp add: normalize_whitespace_def)
  also have "\<dots> \<subseteq> set ?t1 \<union> {10}" by (rule set_sub_crlf)
  also have "\<dots> \<subseteq> set t \<union> {32, 10}" using set_sub_runs[of is_blank 1 "[32]" t] by auto
  finally show ?thesis .
qed

lemma set_remove_excessive_newlines: "set (remove_excessive_newlines cfg t) \<subseteq> set t \<union> {10}"
  using set_sub_runs[of is_newline 3 "[10, 10]" t] set_sub_runs[of is_newline 2 "[10]" t]
  by (auto simp: remove_excessive_newlines_def)

lemma set_break_sentences: "set (break_sentences t) \<subseteq> set t \<union> {32, 10}"
proof -
  let ?t1 = "sub_runs is_newline 1 [32] t"
  let ?t2 = "sub_runs isspace 1 [32] ?t1"
  have "set (break_sentences t) \<subseteq> set (py_strip ?t2) \<union> {10}"
    unfolding break_sentences_def by (rule set_sub_sentence)
  also have "\<dots> \<subseteq> set ?t2 \<union> {10}" using set_py_strip[of ?t2] by auto
  also have "\<dots> \<subseteq> set ?t1 \<union> {32, 10}" using set_sub_runs[of isspace 1 "[32]" ?t1] by auto
  also have "\<dots> \<subseteq> set t \<union> {32, 10}" using set_sub_runs[of is_newline 1 "[32]" t] by auto
  finally show ?thesis .
qed

lemma preprocess_text_chars:
  assumes "c \<in> set (preprocess_text u cfg x)"
  shows "\<not> is_control c \<and> \<not> typographic c"
proof -
  let ?t4 = "char_stages u x"
  have b: "set (body u cfg x) \<subseteq> set ?t4 \<union> {32, 10}"
  proof -
    have "set (body u cfg x)
        \<subseteq> set (remove_excessive_newlines cfg (normalize_whitespace ?t4)) \<union> {32, 10}"
      unfolding body_def char_stages_def by (rule set_break_sentences)
    also have "\<dots> \<subseteq> set (normalize_whitespace ?t4) \<union> {32, 10}"
      using set_remove_excessive_newlines[of cfg "normalize_whitespace ?t4"] by auto
    also have "\<dots> \<subseteq> set ?t4 \<union> {32, 10}" using set_normalize_whitespace[of ?t4] by auto
    finally show ?thesis .
  qed
  let ?ls = "filter (keep_line cfg) (split 10 (body u cfg x))"
  have "c \<in> set [10] \<union> \<Union> (set ` set ?ls)"
    using assms set_join[of "[10]" ?ls] unfolding preprocess_text_lines by blast
  then have "c = 10 \<or> (\<exists>l\<in>set (split 10 (body u cfg x)). c \<in> set l)" by auto
  then have "c = 10 \<or> c \<in> set (body u cfg x)" using set_split by blast
  then have "c = 10 \<or> c = 32 \<or> c \<in> set ?t4" using b by auto
  then show ?thesis using char_stages_chars[of c u x] by (auto simp: is_control_def typographic_def)
qed

lemma remove_control_characters_id:
  "\<forall>c\<in>set t. \<not> is_control c \<Longrightarrow> remove_control_characters t = t"
  unfolding remove_control_characters_def by (rule sub_class_id) simp

lemma clean_special_characters_id:
  assumes "\<forall>c\<in>set t. \<not> typographic c"
  shows "clean_special_characters t = t"
proof -
  have 1: "sub_class (\<lambda>c. c = 0x22 \<or> c = 0x22 \<or> c = 0x22) [0x22] t = t"
    by (rule sub_class_id) simp
  have 2: "sub_class (\<lambda>c. c = 0x27 \<or> c = 0x27 \<or> c = 0x27) [0x27] t = t"
    by (rule sub_class_id) simp
  have 3: "sub_class (\<lambda>c. c = 0x2013 \<or> c = 0x2014) [45] t = t"
    by (rule sub_class_id) (use assms in \<open>auto simp: typographic_def\<close>)
  have "0x2026 \<notin> set t" using assms by (auto simp: typographic_def)
  then have 4: "str_replace [0x2026] [46, 46, 46] t = t" by (rule str_replace_absent)
  show ?thesis by (simp only: clean_special_characters_def Let_def 1 2 3 4)
qed

lemma char_stages_fixed:
  assumes "nfc u (preprocess_text u cfg x) = preprocess_text u cfg x"
    and "fix_common_encoding_issues (preprocess_text u cfg x) = preprocess_text u cfg x"
  shows "char_stages u (preprocess_text u cfg x) = preprocess_text u cfg x"
proof -
  let ?y = "preprocess_text u cfg x"
  have c: "\<forall>c\<in>set ?y. \<not> is_control c" and t: "\<forall>c\<in>set ?y. \<not> typographic c"
    using preprocess_text_chars by blast+
  have "char_stages u ?y
      = clean_special_characters (fix_common_encoding_issues (remove_control_characters ?y))"
    by (simp add: char_stages_def normalize_unicode_def assms(1))
  also have "\<dots> = clean_special_characters (fix_common_encoding_issues ?y)"
    by (simp only: remove_control_characters_id[OF c])
  also have "\<dots> = clean_special_characters ?y" by (simp only: assms(2))
  also have "\<dots> = ?y" by (rule clean_special_characters_id[OF t])
  finally show ?thesis .
qed

text \<open>
  C3, as stated, fails. The text U+00E2 U+00C2 U+20AC U+2122 is in NFC. With the default
  configuration the encoding repair removes U+00C2 and the pipeline returns
  U+00E2 U+20AC U+2122, which is in NFC too; on that text the repair finds the apostrophe
  pattern, and the single apostrophe left is shorter than \<open>min_line_length\<close>, so the second
  run returns the empty text. This holds for every Unicode database whose NFC leaves the
  two texts as they are.
\<close>

theorem preprocess_text_not_idempotent:
  "\<not> (\<exists>u. nfc u [0xE2, 0xC2, 0x20AC, 0x2122] = [0xE2, 0xC2, 0x20AC, 0x2122]
        \<and> nfc u [0xE2, 0x20AC, 0x2122] = [0xE2, 0x20AC, 0x2122]
        \<and> preprocess_text u \<lparr>preserve_paragraphs = True, min_line_length = 3, verbose = True\<rparr>
            (preprocess_text u \<lparr>preserve_paragraphs = True, min_line_length = 3, verbose = True\<rparr>
               [0xE2, 0xC2, 0x20AC, 0x2122])
          = preprocess_text u \<lparr>preserve_paragraphs = True, min_line_length = 3, verbose = True\<rparr>
               [0xE2, 0xC2, 0x20AC, 0x2122])"
proof
  let ?c = "\<lparr>preserve_paragraphs = True, min_line_length = 3, verbose = True\<rparr>"
  assume "\<exists>u. nfc u [0xE2, 0xC2, 0x20AC, 0x2122] = [0xE2, 0xC2, 0x20AC, 0x2122]
        \<and> nfc u [0xE2, 0x20AC, 0x2122] = [0xE2, 0x20AC, 0x2122]
        \<and> preprocess_text u ?c (preprocess_text u ?c [0xE2, 0xC2, 0x20AC, 0x2122])
          = preprocess_text u ?c [0xE2, 0xC2, 0x20AC, 0x2122]"
  then obtain u where n1: "nfc u [0xE2, 0xC2, 0x20AC, 0x2122] = [0xE2, 0xC2, 0x20AC, 0x2122]"
    and n2: "nfc u [0xE2, 0x20AC, 0x2122] = [0xE2, 0x20AC, 0x2122]"
    and i: "preprocess_text u ?c (preprocess_text u ?c [0xE2, 0xC2, 0x20AC, 0x2122])
          = preprocess_text u ?c [0xE2, 0xC2, 0x20AC, 0x2122]"
    by blast
  note defs = preprocess_text_def normalize_unicode_def remove_control_characters_def
      sub_class_def is_control_def fix_common_encoding_issues_def replacements_eq str_replace_def
      clean_special_characters_def normalize_whitespace_def is_blank_def
      remove_excessive_newlines_def remove_mid_sentence_newlines_def py_strip_def
      isspace_def is_newline_def is_punct_def find_abbrev_def abbreviations_eq is_digit_def
      match_marker_def is_upper_def is_lower_def remove_empty_lines_def keep_line_def Let_def
  have p1: "preprocess_text u ?c [0xE2, 0xC2, 0x20AC, 0x2122] = [0xE2, 0x20AC, 0x2122]"
    by (simp add: defs n1)
  have p2: "preprocess_text u ?c [0xE2, 0x20AC, 0x2122] = []"
    by (simp add: defs n2)
  from i show False unfolding p1 p2 by simp
qed

text \<open>
  C3, amended. Whenever the result of the pipeline is left unchanged by NFC normalisation
  and by the encoding repair, a second run of the pipeline returns the same text. The
  other stages never change the pipeline's own result: it has no control character, dash
  or ellipsis left, and the whitespace and line stages reproduce it.
\<close>

theorem preprocess_text_idempotent_on_stable:
  "nfc u (preprocess_text u cfg x) = preprocess_text u cfg x \<Longrightarrow>
   fix_common_encoding_issues (preprocess_text u cfg x) = preprocess_text u cfg x \<Longrightarrow>
     preprocess_text u cfg (preprocess_text u cfg x) = preprocess_text u cfg x"
proof -
  assume n: "nfc u (preprocess_text u cfg x) = preprocess_text u cfg x"
    and f: "fix_common_encoding_issues (preprocess_text u cfg x) = preprocess_text u cfg x"
  have "preprocess_text u cfg (preprocess_text u cfg x)
      = line_stages u cfg (char_stages u (preprocess_text u cfg x))"
    by (rule preprocess_text_stages)
  also have "\<dots> = line_stages u cfg (preprocess_text u cfg x)"
    by (simp only: char_stages_fixed[OF n f])
  also have "\<dots> = preprocess_text u cfg x"
    by (rule line_stages_fixed)
  finally show ?thesis .
qed

theorem preprocess_text_idempotent_on_stable_witness:
  "nfc \<lparr>nfc = (\<lambda>t. t), nd = (\<lambda>c. False), alnum = (\<lambda>c. False)\<rparr>
       (preprocess_text \<lparr>nfc = (\<lambda>t. t), nd = (\<lambda>c. False), alnum = (\<lambda>c. False)\<rparr>
          \<lparr>preserve_paragraphs = True, min_line_length = 3, verbose = True\<rparr> (cp ''Seen. Done.''))
     = preprocess_text \<lparr>nfc = (\<lambda>t. t), nd = (\<lambda>c. False), alnum = (\<lambda>c. False)\<rparr>
          \<lparr>preserve_paragraphs = True, min_line_length = 3, verbose = True\<rparr> (cp ''Seen. Done.'')
   \<and> fix_common_encoding_issues
       (preprocess_text \<lparr>nfc = (\<lambda>t. t), nd = (\<lambda>c. False), alnum = (\<lambda>c. False)\<rparr>
          \<lparr>preserve_paragraphs = True, min_line_length = 3, verbose = True\<rparr> (cp ''Seen. Done.''))
     = preprocess_text \<lparr>nfc = (\<lambda>t. t), nd = (\<lambda>c. False), alnum = (\<lambda>c. False)\<rparr>
          \<lparr>preserve_paragraphs = True, min_line_length = 3, verbose = True\<rparr> (cp ''Seen. Done.'')
   \<and> preprocess_text \<lparr>nfc = (\<lambda>t. t), nd = (\<lambda>c. False), alnum = (\<lambda>c. False)\<rparr>
       \<lparr>preserve_paragraphs = True, min_line_length = 3, verbose = True\<rparr>
       (preprocess_text \<lparr>nfc = (\<lambda>t. t), nd = (\<lambda>c. False), alnum = (\<lambda>c. False)\<rparr>
          \<lparr>preserve_paragraphs = True, min_line_length = 3, verbose = True\<rparr> (cp ''Seen. Done.''))
     = preprocess_text \<lparr>nfc = (\<lambda>t. t), nd = (\<lambda>c. False), alnum = (\<lambda>c. False)\<rparr>
          \<lparr>preserve_paragraphs = True, min_line_length = 3, verbose = True\<rparr> (cp ''Seen. Done.'')"
proof -
  let ?u = "\<lparr>nfc = (\<lambda>t. t), nd = (\<lambda>c. False), alnum = (\<lambda>c. False)\<rparr>"
  let ?out = "preprocess_text ?u \<lparr>preserve_paragraphs = True, min_line_length = 3, verbose = True\<rparr> (cp ''Seen. Done.'')"
  have n: "nfc ?u ?out = ?out" by simp
  have f: "fix_common_encoding_issues ?out = ?out"
    unfolding sample_run
    by (simp add: fix_common_encoding_issues_def replacements_eq str_replace_def cp_simps)
  from preprocess_text_idempotent_on_stable[OF n f] n f show ?thesis by simp
qed

section \<open>The pipeline never fails\<close>

lemma and_then_Inr: "and_then (Inr v) f = f v"
  by (simp add: and_then_def)

lemma split_scan_single: "split_scan [c] 0 t = split c t"
  by (induction t) auto

lemma stages_run:
  "normalize_unicode_run u t = Inr (normalize_unicode u t)"
  "remove_control_characters_run t = Inr (remove_control_characters t)"
  "fix_common_encoding_issues_run t = Inr (fix_common_encoding_issues t)"
  "clean_special_characters_run t = Inr (clean_special_characters t)"
  "normalize_whitespace_run t = Inr (normalize_whitespace t)"
  "remove_excessive_newlines_run cfg t = Inr (remove_excessive_newlines cfg t)"
  "remove_mid_sentence_newlines_run u t = Inr (remove_mid_sentence_newlines u t)"
  "remove_empty_lines_run cfg t = Inr (remove_empty_lines cfg t)"
  by (simp_all add: normalize_unicode_run_def normalize_unicode_def
      remove_control_characters_run_def remove_control_characters_def
      fix_common_encoding_issues_run_def fix_common_encoding_issues_def
      clean_special_characters_run_def clean_special_characters_def
      normalize_whitespace_run_def normalize_whitespace_def
      remove_excessive_newlines_run_def remove_excessive_newlines_def
      remove_mid_sentence_newlines_run_def remove_mid_sentence_newlines_def
      remove_empty_lines_run_def remove_empty_lines_def
      re_sub_def str_split_def split_scan_single and_then_Inr cp_simps Let_def)

text \<open>
  C4. For every text and every configuration the pipeline returns a text: no library
  call of any stage takes its failing branch, and every scanning loop is a function with
  a termination proof. The text returned is the one \<open>preprocess_text\<close> computes. On the
  empty text it is the empty text, as soon as NFC normalisation maps the empty text to
  itself.
\<close>

theorem preprocess_text_run_returns:
  "preprocess_text_run u cfg x = Inr (preprocess_text u cfg x)
   \<and> (nfc u [] = [] \<longrightarrow> preprocess_text_run u cfg [] = Inr [])"
proof
  show run: "preprocess_text_run u cfg x = Inr (preprocess_text u cfg x)" for x
    by (simp add: preprocess_text_run_def preprocess_text_def stages_run and_then_Inr Let_def)
  show "nfc u [] = [] \<longrightarrow> preprocess_text_run u cfg [] = Inr []"
    by (simp add: run preprocess_text_Nil)
qed

theorem preprocess_text_run_returns_witness:
  "nfc \<lparr>nfc = (\<lambda>t. t), nd = (\<lambda>c. False), alnum = (\<lambda>c. False)\<rparr> [] = []
   \<and> preprocess_text_run \<lparr>nfc = (\<lambda>t. t), nd = (\<lambda>c. False), alnum = (\<lambda>c. False)\<rparr>
       \<lparr>preserve_paragraphs = True, min_line_length = 3, verbose = True\<rparr> [] = Inr []
   \<and> preprocess_text_run \<lparr>nfc = (\<lambda>t. t), nd = (\<lambda>c. False), alnum = (\<lambda>c. False)\<rparr>
       \<lparr>preserve_paragraphs = True, min_line_length = 3, verbose = True\<rparr> (cp ''Seen. Done.'')
     = Inr (cp ''Seen.'' @ [10] @ cp ''Done.'')"
proof -
  let ?u = "\<lparr>nfc = (\<lambda>t. t), nd = (\<lambda>c. False), alnum = (\<lambda>c. False)\<rparr>"
  let ?c = "\<lparr>preserve_paragraphs = True, min_line_length = 3, verbose = True\<rparr>"
  have n: "nfc ?u [] = []" by simp
  note r = preprocess_text_run_returns[of ?u ?c "cp ''Seen. Done.''"]
  from r n have "preprocess_text_run ?u ?c [] = Inr []" by blast
  moreover from r have "preprocess_text_run ?u ?c (cp ''Seen. Done.'')
      = Inr (cp ''Seen.'' @ [10] @ cp ''Done.'')"
    unfolding sample_run by blast
  ultimately show ?thesis using n by blast
qed

end
